theory Spec2Isabelle
  imports Main
begin

section \<open>Python strings\<close>

text \<open>
  The notebooks run on Python 3, where a \<open>str\<close> is a sequence of Unicode code points.
  A character is modelled by its code point, a string by the list of its code points.
  \<open>str\<close> turns a HOL string literal into such a list, for writing examples.
\<close>

type_synonym pychar = nat
type_synonym pystr = "pychar list"

definition str :: "string \<Rightarrow> pystr" where
  "str s = map of_char s"

definition dash :: pychar where "dash = 45"
definition space :: pychar where "space = 32"
definition newline :: pychar where "newline = 10"
definition lbracket :: pychar where "lbracket = 91"
definition rbracket :: pychar where "rbracket = 93"

text \<open>
  \<open>str.split()\<close> without argument splits at the characters for which \<open>str.isspace\<close>
  holds: tab to carriage return, the four separators U+001C to U+001F, the space, NEL,
  the no-break space and the Unicode space separators.
\<close>

definition isspace :: "pychar \<Rightarrow> bool" where
  "isspace c \<longleftrightarrow>
     (9 \<le> c \<and> c \<le> 13) \<or> (28 \<le> c \<and> c \<le> 32) \<or> c = 133 \<or> c = 160 \<or> c = 5760 \<or>
     (8192 \<le> c \<and> c \<le> 8202) \<or> c = 8232 \<or> c = 8233 \<or> c = 8239 \<or> c = 8287 \<or> c = 12288"

section \<open>The text cleaner of the word2vec notebook\<close>

subsection \<open>\<open>re.sub\<close>\<close>

text \<open>
  \<open>re.sub(pattern, repl, text)\<close> replaces the leftmost non-overlapping matches of the
  pattern: it scans the text from the left; where the pattern matches it emits the
  replacement and goes on behind the match, elsewhere it copies one character. A
  pattern is given by its matcher, which returns the length of the match at the start
  of the remaining text. None of the three patterns of the cleaner matches the empty
  string (lemmas \<open>match_ddash_pos\<close>, \<open>match_bracket_pos\<close> and \<open>match_chapter_pos\<close>
  below), so the treatment of empty matches is left out: a match of length 0 counts
  as no match.
\<close>

fun re_sub :: "(pystr \<Rightarrow> nat option) \<Rightarrow> pystr \<Rightarrow> pystr \<Rightarrow> pystr" where
  "re_sub m repl [] = []"
| "re_sub m repl (c # cs) =
     (case m (c # cs) of
        None \<Rightarrow> c # re_sub m repl cs
      | Some 0 \<Rightarrow> c # re_sub m repl cs
      | Some (Suc k) \<Rightarrow> repl @ re_sub m repl (drop k cs))"

text \<open>The pattern \<^verbatim>\<open>--\<close>: two dashes.\<close>

fun match_ddash :: "pystr \<Rightarrow> nat option" where
  "match_ddash (a # b # cs) = (if a = dash \<and> b = dash then Some 2 else None)"
| "match_ddash cs = None"

text \<open>
  The pattern \<^verbatim>\<open>[\[].*?[\]]\<close>: an opening bracket, then as few characters as possible,
  then a closing bracket. The dot matches every character but the newline (the flag
  DOTALL is not given), so the lazy repetition stops with a match at the first closing
  bracket and fails at a newline that comes before it. \<open>lazy_dots\<close> is the part of the
  pattern behind the opening bracket.
\<close>

fun lazy_dots :: "pystr \<Rightarrow> nat option" where
  "lazy_dots [] = None"
| "lazy_dots (c # cs) =
     (if c = rbracket then Some 1
      else if c = newline then None
      else map_option Suc (lazy_dots cs))"

fun match_bracket :: "pystr \<Rightarrow> nat option" where
  "match_bracket [] = None"
| "match_bracket (c # cs) =
     (if c = lbracket then map_option Suc (lazy_dots cs) else None)"

text \<open>
  The pattern \<^verbatim>\<open>Chapter \d+\<close>: the word, a space, and as many decimal digits as follow,
  at least one. On a \<open>str\<close> pattern \<^verbatim>\<open>\d\<close> matches every Unicode decimal digit; the
  table of these characters belongs to the interpreter and is the parameter \<open>digit\<close>.
\<close>

definition match_chapter :: "(pychar \<Rightarrow> bool) \<Rightarrow> pystr \<Rightarrow> nat option" where
  "match_chapter digit s =
     (if take 8 s = str ''Chapter '' \<and> takeWhile digit (drop 8 s) \<noteq> []
      then Some (8 + length (takeWhile digit (drop 8 s))) else None)"

subsection \<open>\<open>split\<close> and \<open>join\<close>\<close>

text \<open>
  \<open>text.split()\<close> returns the maximal runs of characters that are not whitespace. The
  scan keeps the word read so far in \<open>cur\<close>.
\<close>

fun split_scan :: "pystr \<Rightarrow> pystr \<Rightarrow> pystr list" where
  "split_scan cur [] = (if cur = [] then [] else [cur])"
| "split_scan cur (c # cs) =
     (if isspace c then (if cur = [] then split_scan [] cs else cur # split_scan [] cs)
      else split_scan (cur @ [c]) cs)"

definition split :: "pystr \<Rightarrow> pystr list" where
  "split text = split_scan [] text"

fun join :: "pystr \<Rightarrow> pystr list \<Rightarrow> pystr" where
  "join sep [] = []"
| "join sep [w] = w"
| "join sep (w # v # ws) = w @ sep @ join sep (v # ws)"

subsection \<open>\<open>text_cleaner\<close>\<close>

definition text_cleaner :: "(pychar \<Rightarrow> bool) \<Rightarrow> pystr \<Rightarrow> pystr" where
  "text_cleaner digit text =
     (let text = re_sub match_ddash [space] text;
          text = re_sub match_bracket [] text;
          text = re_sub (match_chapter digit) [] text;
          text = join [space] (split text)
      in text)"


subsection \<open>What the cleaner leaves of whitespace\<close>

definition stripped :: "pystr \<Rightarrow> bool" where
  "stripped s \<longleftrightarrow>
     (case s of [] \<Rightarrow> True | c # cs \<Rightarrow> \<not> isspace c \<and> \<not> isspace (last (c # cs)))"

fun no_double_space :: "pystr \<Rightarrow> bool" where
  "no_double_space (a # b # cs) \<longleftrightarrow> \<not> (isspace a \<and> isspace b) \<and> no_double_space (b # cs)"
| "no_double_space cs \<longleftrightarrow> True"

definition is_word :: "pystr \<Rightarrow> bool" where
  "is_word w \<longleftrightarrow> w \<noteq> [] \<and> list_all (\<lambda>c. \<not> isspace c) w"

text \<open>A double dash somewhere in a text.\<close>

fun has_ddash :: "pystr \<Rightarrow> bool" where
  "has_ddash (a # b # cs) \<longleftrightarrow> (a = dash \<and> b = dash) \<or> has_ddash (b # cs)"
| "has_ddash cs \<longleftrightarrow> False"

text \<open>The text after the three substitutions, before the whitespace is normalised.\<close>

definition substituted :: "(pychar \<Rightarrow> bool) \<Rightarrow> pystr \<Rightarrow> pystr" where
  "substituted digit s =
     re_sub (match_chapter digit) [] (re_sub match_bracket [] (re_sub match_ddash [space] s))"

subsection \<open>The four steps in the words of the specification\<close>

text \<open>
  The specification describes the cleaner by what each step does to the text, not by
  patterns. These definitions follow its words. Step 1: every double dash becomes a
  space.
\<close>

fun replace_ddash :: "pystr \<Rightarrow> pystr" where
  "replace_ddash (a # b # cs) =
     (if a = dash \<and> b = dash then space # replace_ddash cs else a # replace_ddash (b # cs))"
| "replace_ddash cs = cs"

text \<open>
  Step 2: every shortest piece from an opening bracket to a closing bracket is deleted.
  Which opening brackets start such a piece is the parameter \<open>ok\<close>, a test on the text
  behind the bracket: \<open>closes\<close> asks only for a closing bracket, as the specification
  does; \<open>closes_on_line\<close> asks in addition that no newline comes before it.
\<close>

definition closes :: "pystr \<Rightarrow> bool" where
  "closes cs \<longleftrightarrow> rbracket \<in> set cs"

definition closes_on_line :: "pystr \<Rightarrow> bool" where
  "closes_on_line cs \<longleftrightarrow>
     rbracket \<in> set cs \<and> newline \<notin> set (takeWhile (\<lambda>x. x \<noteq> rbracket) cs)"

definition after_rbracket :: "pystr \<Rightarrow> pystr" where
  "after_rbracket cs = tl (dropWhile (\<lambda>x. x \<noteq> rbracket) cs)"

function delete_bracketed :: "(pystr \<Rightarrow> bool) \<Rightarrow> pystr \<Rightarrow> pystr" where
  "delete_bracketed ok [] = []"
| "delete_bracketed ok (c # cs) =
     (if c = lbracket \<and> ok cs then delete_bracketed ok (after_rbracket cs)
      else c # delete_bracketed ok cs)"
  by pat_completeness auto
termination
proof (relation "measure (\<lambda>(ok, s). length s)")
  fix ok :: "pystr \<Rightarrow> bool" and c :: pychar and cs :: pystr
  have "length (dropWhile (\<lambda>x. x \<noteq> rbracket) cs) \<le> length cs"
    by (rule length_dropWhile_le)
  then show "((ok, after_rbracket cs), (ok, c # cs)) \<in> measure (\<lambda>(ok, s). length s)"
    by (simp add: after_rbracket_def)
qed simp_all

text \<open>Step 3: every \<open>Chapter\<close>, space and run of digits is deleted.\<close>

definition chapter_heading :: "(pychar \<Rightarrow> bool) \<Rightarrow> pystr \<Rightarrow> bool" where
  "chapter_heading digit s \<longleftrightarrow>
     take 8 s = str ''Chapter '' \<and> (case drop 8 s of [] \<Rightarrow> False | d # _ \<Rightarrow> digit d)"

function delete_chapters :: "(pychar \<Rightarrow> bool) \<Rightarrow> pystr \<Rightarrow> pystr" where
  "delete_chapters digit [] = []"
| "delete_chapters digit (c # cs) =
     (if chapter_heading digit (c # cs)
      then delete_chapters digit (dropWhile digit (drop 7 cs))
      else c # delete_chapters digit cs)"
  by pat_completeness auto
termination
proof (relation "measure (\<lambda>(d, s). length s)")
  fix digit :: "pychar \<Rightarrow> bool" and c :: pychar and cs :: pystr
  have "length (dropWhile digit (drop 7 cs)) \<le> length (drop 7 cs)"
    by (rule length_dropWhile_le)
  then show "((digit, dropWhile digit (drop 7 cs)), (digit, c # cs))
               \<in> measure (\<lambda>(d, s). length s)"
    by simp
qed simp_all

text \<open>Step 4 is \<open>split\<close> and \<open>join\<close> themselves. The four steps in order:\<close>

definition cleaner_steps :: "(pystr \<Rightarrow> bool) \<Rightarrow> (pychar \<Rightarrow> bool) \<Rightarrow> pystr \<Rightarrow> pystr" where
  "cleaner_steps ok digit s =
     join [space] (split (delete_chapters digit (delete_bracketed ok (replace_ddash s))))"

text \<open>The ASCII digits, a table of digits for the examples.\<close>

definition ascii_digit :: "pychar \<Rightarrow> bool" where
  "ascii_digit c \<longleftrightarrow> 48 \<le> c \<and> c \<le> 57"

section \<open>The helpers of the newsgroups notebook\<close>

subsection \<open>Matrices, data frames and series\<close>

text \<open>
  A matrix (a scipy sparse matrix or a two-dimensional numpy array) has a shape and its
  rows; the shape is kept beside the rows because a matrix without rows still has a
  number of columns. A \<open>DataFrame\<close> is a matrix with a label for each row; the labels
  are strings, as the vocabulary of the vectorizer is. The numbers are 64-bit floats in
  the notebook; the model takes them from any type \<open>'v\<close> with the operations it needs
  (an order for sorting, sums and products for the matrix product), computed exactly.
\<close>

record 'v matrix =
  shape :: "nat \<times> nat"
  rows :: "'v list list"

record 'v dataframe =
  df_index :: "pystr list"
  df_values :: "'v matrix"

definition wf_matrix :: "'v matrix \<Rightarrow> bool" where
  "wf_matrix a \<longleftrightarrow>
     length (rows a) = fst (shape a) \<and> list_all (\<lambda>r. length r = snd (shape a)) (rows a)"

definition wf_dataframe :: "'v dataframe \<Rightarrow> bool" where
  "wf_dataframe df \<longleftrightarrow>
     wf_matrix (df_values df) \<and> length (df_index df) = fst (shape (df_values df))"

definition df_shape :: "'v dataframe \<Rightarrow> nat \<times> nat" where
  "df_shape df = shape (df_values df)"

definition entry :: "'v matrix \<Rightarrow> nat \<Rightarrow> nat \<Rightarrow> 'v" where
  "entry a i j = rows a ! i ! j"

definition column :: "'v matrix \<Rightarrow> nat \<Rightarrow> 'v list" where
  "column a j = map (\<lambda>r. r ! j) (rows a)"

text \<open>A \<open>Series\<close> of numbers labelled by words: a column of a data frame.\<close>

record 'v wseries =
  ws_index :: "pystr list"
  ws_values :: "'v list"

text \<open>
  The \<open>Series\<close> that \<open>top_words\<close> builds is labelled by topic numbers. A cell holds the
  missing value \<open>NaN\<close>, a string, or a sequence object (an \<open>Index\<close> of strings) that was
  stored in the cell as a whole.
\<close>

datatype cell = NaN | Str pystr | Seq "pystr list"

record tseries =
  ts_index :: "nat list"
  ts_values :: "cell list"

datatype error =
    ValueError
  | AttributeError
  | Enlargement

subsection \<open>\<open>word_topic\<close>\<close>

text \<open>
  \<open>tfidf.T\<close> swaps the two axes. \<open>*\<close> between a sparse matrix and a two-dimensional
  array is the matrix product, which raises \<open>ValueError\<close> (dimension mismatch) unless
  the left operand has as many columns as the right one has rows.
  \<open>pd.DataFrame(data, index=wordlist)\<close> raises \<open>ValueError\<close> unless there is one label
  for each row.
\<close>

definition T :: "'v matrix \<Rightarrow> 'v matrix" where
  "T a = \<lparr>shape = (snd (shape a), fst (shape a)),
          rows = map (column a) [0..<snd (shape a)]\<rparr>"

definition dot :: "'v::semiring_0 list \<Rightarrow> 'v list \<Rightarrow> 'v" where
  "dot xs ys = sum_list (map (\<lambda>(x, y). x * y) (zip xs ys))"

definition matmul :: "'v::semiring_0 matrix \<Rightarrow> 'v matrix \<Rightarrow> error + 'v matrix" where
  "matmul a b =
     (if snd (shape a) \<noteq> fst (shape b) then Inl ValueError
      else Inr \<lparr>shape = (fst (shape a), snd (shape b)),
                rows = map (\<lambda>r. map (\<lambda>j. dot r (column b j)) [0..<snd (shape b)]) (rows a)\<rparr>)"

definition DataFrame :: "'v matrix \<Rightarrow> pystr list \<Rightarrow> error + 'v dataframe" where
  "DataFrame data idx =
     (if length idx \<noteq> fst (shape data) then Inl ValueError
      else Inr \<lparr>df_index = idx, df_values = data\<rparr>)"

definition word_topic ::
  "'v::semiring_0 matrix \<Rightarrow> 'v matrix \<Rightarrow> pystr list \<Rightarrow> error + 'v dataframe" where
  "word_topic tfidf solution wordlist =
     (case matmul (T tfidf) solution of
        Inl e \<Rightarrow> Inl e
      | Inr words_by_topic \<Rightarrow> DataFrame words_by_topic wordlist)"

subsection \<open>\<open>top_words\<close>\<close>

text \<open>\<open>np.repeat(xs, n, axis=0)\<close> repeats each element \<open>n\<close> times, one copy after the other.\<close>

definition repeat :: "'a list \<Rightarrow> nat \<Rightarrow> 'a list" where
  "repeat xs n = concat (map (replicate n) xs)"

text \<open>\<open>pd.Series(index=index)\<close> without data: every cell is \<open>NaN\<close>.\<close>

definition Series :: "nat list \<Rightarrow> tseries" where
  "Series idx = \<lparr>ts_index = idx, ts_values = replicate (length idx) NaN\<rparr>"

text \<open>\<open>components.iloc[:, column]\<close>: the column, with the labels of the frame.\<close>

definition iloc_column :: "'v dataframe \<Rightarrow> nat \<Rightarrow> 'v wseries" where
  "iloc_column df j = \<lparr>ws_index = df_index df, ws_values = column (df_values df) j\<rparr>"

text \<open>
  \<open>sort_values(ascending=False)\<close> asks numpy for the permutation that sorts the values
  in ascending order, reverses it, and takes values and labels in that order. The
  sorting kernel (quicksort, which need not be stable) is the parameter \<open>argsort\<close>;
  \<open>argsort_ok\<close> is what numpy promises of it on one array. The values are taken to be
  numbers: no \<open>NaN\<close> occurs among them.
\<close>

definition sort_values_desc :: "('v list \<Rightarrow> nat list) \<Rightarrow> 'v wseries \<Rightarrow> 'v wseries" where
  "sort_values_desc argsort s =
     (let sortedIdx = rev (argsort (ws_values s))
      in \<lparr>ws_index = map (\<lambda>i. ws_index s ! i) sortedIdx,
          ws_values = map (\<lambda>i. ws_values s ! i) sortedIdx\<rparr>)"

definition argsort_ok :: "('v::linorder list \<Rightarrow> nat list) \<Rightarrow> 'v list \<Rightarrow> bool" where
  "argsort_ok argsort xs \<longleftrightarrow>
     sort (argsort xs) = [0..<length xs] \<and> sorted (map (\<lambda>i. xs ! i) (argsort xs))"

text \<open>\<open>sortedwords[:n_top_words]\<close>: the first rows.\<close>

definition head :: "nat \<Rightarrow> 'v wseries \<Rightarrow> 'v wseries" where
  "head n s = \<lparr>ws_index = take n (ws_index s), ws_values = take n (ws_values s)\<rparr>"

text \<open>
  \<open>chosen.index + " " + round(chosen,2).map(str)\<close>: row by row, the label, a space and
  the text of the rounded value. Rounding a float to two decimals and printing it are
  the library's; together they are the parameter \<open>round2_str\<close>. In the pandas of the
  notebook the sum is an \<open>Index\<close>, a plain sequence of strings.
\<close>

definition label_loading :: "('v \<Rightarrow> pystr) \<Rightarrow> pystr \<Rightarrow> 'v \<Rightarrow> pystr" where
  "label_loading round2_str w v = w @ [space] @ round2_str v"

definition chosen_list :: "('v \<Rightarrow> pystr) \<Rightarrow> 'v wseries \<Rightarrow> pystr list" where
  "chosen_list round2_str chosen =
     map (\<lambda>(w, v). label_loading round2_str w v) (zip (ws_index chosen) (ws_values chosen))"

text \<open>
  \<open>topwords.loc[label] = value\<close> with a sequence as value. The rows that carry the label
  are looked up first. Several rows: the values are written to them in order, and
  pandas raises \<open>ValueError\<close> when their number differs from the number of rows. One
  row: the indexer is a single position and the sequence object itself is stored in
  that cell. No row: pandas would enlarge the series; the model does not follow that
  path and stops with \<open>Enlargement\<close>.
\<close>

definition positions :: "nat list \<Rightarrow> nat \<Rightarrow> nat list" where
  "positions idx label = filter (\<lambda>p. idx ! p = label) [0..<length idx]"

definition assign :: "cell list \<Rightarrow> nat list \<Rightarrow> pystr list \<Rightarrow> cell list" where
  "assign cells ps vs = fold (\<lambda>(p, v) cs. cs[p := Str v]) (zip ps vs) cells"

definition loc_set :: "tseries \<Rightarrow> nat \<Rightarrow> pystr list \<Rightarrow> error + tseries" where
  "loc_set s label value =
     (case positions (ts_index s) label of
        [] \<Rightarrow> Inl Enlargement
      | [p] \<Rightarrow> Inr (s\<lparr>ts_values := (ts_values s)[p := Seq value]\<rparr>)
      | ps \<Rightarrow>
          if length value \<noteq> length ps then Inl ValueError
          else Inr (s\<lparr>ts_values := assign (ts_values s) ps value\<rparr>))"

text \<open>The body of the loop over the columns, and the loop.\<close>

definition top_words_column ::
  "('v list \<Rightarrow> nat list) \<Rightarrow> ('v \<Rightarrow> pystr) \<Rightarrow> 'v dataframe \<Rightarrow> nat \<Rightarrow> nat \<Rightarrow> pystr list" where
  "top_words_column argsort round2_str components n_top_words col =
     (let sortedwords = sort_values_desc argsort (iloc_column components col);
          chosen = head n_top_words sortedwords
      in chosen_list round2_str chosen)"

fun top_words_loop ::
  "('v list \<Rightarrow> nat list) \<Rightarrow> ('v \<Rightarrow> pystr) \<Rightarrow> 'v dataframe \<Rightarrow> nat \<Rightarrow>
   nat list \<Rightarrow> tseries \<Rightarrow> error + tseries" where
  "top_words_loop argsort round2_str components n_top_words [] topwords = Inr topwords"
| "top_words_loop argsort round2_str components n_top_words (col # cols) topwords =
     (case loc_set topwords col
             (top_words_column argsort round2_str components n_top_words col) of
        Inl e \<Rightarrow> Inl e
      | Inr topwords' \<Rightarrow>
          top_words_loop argsort round2_str components n_top_words cols topwords')"

definition top_words ::
  "('v list \<Rightarrow> nat list) \<Rightarrow> ('v \<Rightarrow> pystr) \<Rightarrow> 'v dataframe \<Rightarrow> nat \<Rightarrow> error + tseries" where
  "top_words argsort round2_str components n_top_words =
     (let n_topics = [0..<snd (df_shape components)];
          index = repeat n_topics n_top_words;
          topwords = Series index
      in top_words_loop argsort round2_str components n_top_words n_topics topwords)"

text \<open>Reading the result: the cells of the rows that carry a label.\<close>

definition cells_at :: "tseries \<Rightarrow> nat \<Rightarrow> cell list" where
  "cells_at s label = map (\<lambda>p. ts_values s ! p) (positions (ts_index s) label)"

subsection \<open>The top rows of a column\<close>


subsection \<open>Example data\<close>

text \<open>
  A sorting kernel (a stable insertion sort of the positions), a printer for
  one-digit integers and a frame of three words and two topics.
\<close>

definition insertion_argsort :: "int list \<Rightarrow> nat list" where
  "insertion_argsort xs = sort_key (\<lambda>i. xs ! i) [0..<length xs]"

definition digit_str :: "int \<Rightarrow> pystr" where
  "digit_str v = [48 + nat v]"

definition example_frame :: "int dataframe" where
  "example_frame =
     \<lparr>df_index = [str ''car'', str ''god'', str ''gun''],
      df_values = \<lparr>shape = (3, 2), rows = [[1, 5], [3, 4], [2, 6]]\<rparr>\<rparr>"

definition example_tfidf :: "int matrix" where
  "example_tfidf = \<lparr>shape = (2, 3), rows = [[1, 0, 2], [0, 3, 1]]\<rparr>"

definition example_solution :: "int matrix" where
  "example_solution = \<lparr>shape = (2, 2), rows = [[1, 2], [3, 4]]\<rparr>"


section \<open>The helpers on a store of objects\<close>

text \<open>
  Python passes objects by reference, so whether a helper changes its arguments is a
  question about the store. An object lives at an address; the store is the list of
  all objects, and a new object gets the next free address. \<open>iloc[:, j]\<close> gives a view:
  an object that reads the column through the frame it was taken from. A name bound to
  an object of the wrong kind makes the attribute lookup fail with \<open>AttributeError\<close>.
\<close>

type_synonym addr = nat

datatype 'v obj =
    Matrix "'v matrix"
  | Words "pystr list"
  | Frame "'v dataframe"
  | View addr nat
  | Column "'v wseries"
  | Topics tseries

type_synonym 'v store = "'v obj list"

definition fetch :: "'v store \<Rightarrow> addr \<Rightarrow> 'v obj option" where
  "fetch h a = (if a < length h then Some (h ! a) else None)"

definition alloc :: "'v store \<Rightarrow> 'v obj \<Rightarrow> addr \<times> 'v store" where
  "alloc h x = (length h, h @ [x])"

definition put :: "'v store \<Rightarrow> addr \<Rightarrow> 'v obj \<Rightarrow> 'v store" where
  "put h a x = h[a := x]"

text \<open>Reading a series of numbers: its own data, or the column behind a view.\<close>

definition read_series :: "'v store \<Rightarrow> addr \<Rightarrow> 'v wseries option" where
  "read_series h a =
     (case fetch h a of
        Some (Column s) \<Rightarrow> Some s
      | Some (View f j) \<Rightarrow>
          (case fetch h f of Some (Frame df) \<Rightarrow> Some (iloc_column df j) | _ \<Rightarrow> None)
      | _ \<Rightarrow> None)"

text \<open>
  \<open>word_topic\<close>: the transpose, the product and the frame are three new objects; the
  arguments are only read.
\<close>

definition word_topic_st ::
  "addr \<Rightarrow> addr \<Rightarrow> addr \<Rightarrow> 'v::semiring_0 store \<Rightarrow> (error + addr) \<times> 'v store" where
  "word_topic_st tfidf solution wordlist h =
     (case (fetch h tfidf, fetch h solution, fetch h wordlist) of
        (Some (Matrix a), Some (Matrix b), Some (Words ws)) \<Rightarrow>
          (let (transposed, h1) = alloc h (Matrix (T a))
           in case matmul (T a) b of
                Inl e \<Rightarrow> (Inl e, h1)
              | Inr p \<Rightarrow>
                  (let (words_by_topic, h2) = alloc h1 (Matrix p)
                   in case DataFrame p ws of
                        Inl e \<Rightarrow> (Inl e, h2)
                      | Inr df \<Rightarrow>
                          (let (components, h3) = alloc h2 (Frame df)
                           in (Inr components, h3))))
      | _ \<Rightarrow> (Inl AttributeError, h))"

text \<open>
  \<open>top_words\<close>: the body of the loop takes a view of the column, lets \<open>sort_values\<close>
  build a new sorted series from it (\<open>inplace\<close> is not set), slices that, builds the list
  of strings, and assigns it into the series at \<open>topwords\<close>, the only object that is
  written.
\<close>

fun top_words_loop_st ::
  "('v list \<Rightarrow> nat list) \<Rightarrow> ('v \<Rightarrow> pystr) \<Rightarrow> addr \<Rightarrow> nat \<Rightarrow> nat list \<Rightarrow> addr \<Rightarrow>
   'v store \<Rightarrow> (error + unit) \<times> 'v store" where
  "top_words_loop_st argsort round2_str components n_top_words [] topwords h = (Inr (), h)"
| "top_words_loop_st argsort round2_str components n_top_words (col # cols) topwords h =
     (let (view, h1) = alloc h (View components col)
      in case read_series h1 view of
           None \<Rightarrow> (Inl AttributeError, h1)
         | Some s \<Rightarrow>
             (let sorted_series = sort_values_desc argsort s;
                  (sortedwords, h2) = alloc h1 (Column sorted_series);
                  chosen_series = head n_top_words sorted_series;
                  (chosen, h3) = alloc h2 (Column chosen_series);
                  chosenlist = chosen_list round2_str chosen_series;
                  (chosenlist_at, h4) = alloc h3 (Words chosenlist)
              in case fetch h4 topwords of
                   Some (Topics tw) \<Rightarrow>
                     (case loc_set tw col chosenlist of
                        Inl e \<Rightarrow> (Inl e, h4)
                      | Inr tw' \<Rightarrow>
                          top_words_loop_st argsort round2_str components n_top_words cols
                            topwords (put h4 topwords (Topics tw')))
                 | _ \<Rightarrow> (Inl AttributeError, h4)))"

definition top_words_st ::
  "('v list \<Rightarrow> nat list) \<Rightarrow> ('v \<Rightarrow> pystr) \<Rightarrow> addr \<Rightarrow> nat \<Rightarrow> 'v store \<Rightarrow>
   (error + addr) \<times> 'v store" where
  "top_words_st argsort round2_str components n_top_words h =
     (case fetch h components of
        Some (Frame df) \<Rightarrow>
          (let n_topics = [0..<snd (df_shape df)];
               index = repeat n_topics n_top_words;
               (topwords, h1) = alloc h (Topics (Series index))
           in case top_words_loop_st argsort round2_str components n_top_words n_topics
                     topwords h1 of
                (Inl e, h') \<Rightarrow> (Inl e, h')
              | (Inr u, h') \<Rightarrow> (Inr topwords, h'))
      | _ \<Rightarrow> (Inl AttributeError, h))"

text \<open>A store that holds the example matrices, a word list and the example frame.\<close>

definition example_store :: "int store" where
  "example_store =
     [Matrix example_tfidf, Matrix example_solution,
      Words [str ''car'', str ''god'', str ''gun''], Frame example_frame]"

section \<open>The cells of the newsgroups notebook\<close>

text \<open>
  The notebook fixes the number of words shown for a topic and the number of topics,
  and gives the latter to each of the three models (\<open>TruncatedSVD(ntopics)\<close>,
  \<open>LDA(n_components=ntopics, ...)\<close>, \<open>NMF(..., n_components=ntopics, ...)\<close>).
\<close>

definition n_top_words :: nat where
  "n_top_words = 10"

definition ntopics :: nat where
  "ntopics = 8"

text \<open>
  What the library returned in one run of the notebook: the tf-idf matrix and the
  vocabulary of the vectorizer, and the document-topic matrix that \<open>fit_transform\<close> of
  each model returned for the tf-idf matrix.
\<close>

record 'v session =
  news_train_tfidf :: "'v matrix"
  vocabulary :: "pystr list"
  news_train_lsa :: "'v matrix"
  news_train_lda :: "'v matrix"
  news_train_nmf :: "'v matrix"

text \<open>
  The frame \<open>topwords\<close> has the topic numbers as index and one column of cells for each
  model. \<open>topwords[name] = series\<close>: a frame without rows takes the index of the series;
  a series with the index of the frame gives its values as they are; a series with
  another index is aligned by label, which pandas refuses (\<open>ValueError\<close>) when a label of
  the series occurs twice.
\<close>

record tframe =
  tf_index :: "nat list"
  tf_columns :: "(string \<times> cell list) list"

definition empty_frame :: tframe where
  "empty_frame = \<lparr>tf_index = [], tf_columns = []\<rparr>"

fun update_column :: "string \<Rightarrow> cell list \<Rightarrow> (string \<times> cell list) list \<Rightarrow> (string \<times> cell list) list" where
  "update_column name cs [] = [(name, cs)]"
| "update_column name cs ((k, v) # rest) =
     (if k = name then (name, cs) # rest else (k, v) # update_column name cs rest)"

definition set_column :: "tframe \<Rightarrow> string \<Rightarrow> tseries \<Rightarrow> error + tframe" where
  "set_column fr name s =
     (if tf_index fr = [] then
        Inr \<lparr>tf_index = ts_index s,
             tf_columns = update_column name (ts_values s)
               (map (\<lambda>(k, v). (k, replicate (length (ts_index s)) NaN)) (tf_columns fr))\<rparr>
      else if ts_index s = tf_index fr then
        Inr (fr\<lparr>tf_columns := update_column name (ts_values s) (tf_columns fr)\<rparr>)
      else if \<not> distinct (ts_index s) then Inl ValueError
      else
        Inr (fr\<lparr>tf_columns := update_column name
               (map (\<lambda>l. case map_of (zip (ts_index s) (ts_values s)) l of
                            None \<Rightarrow> NaN | Some c \<Rightarrow> c) (tf_index fr))
               (tf_columns fr)\<rparr>))"

text \<open>The three cells, in the order of the notebook, and the cell that prints a topic.\<close>

definition lsa_cell ::
  "('v::semiring_0 list \<Rightarrow> nat list) \<Rightarrow> ('v \<Rightarrow> pystr) \<Rightarrow> 'v session \<Rightarrow> error + tframe" where
  "lsa_cell argsort round2_str ses =
     (case word_topic (news_train_tfidf ses) (news_train_lsa ses) (vocabulary ses) of
        Inl e \<Rightarrow> Inl e
      | Inr components_lsa \<Rightarrow>
          (case top_words argsort round2_str components_lsa n_top_words of
             Inl e \<Rightarrow> Inl e
           | Inr s \<Rightarrow> set_column empty_frame ''LSA'' s))"

definition lda_cell ::
  "('v::semiring_0 list \<Rightarrow> nat list) \<Rightarrow> ('v \<Rightarrow> pystr) \<Rightarrow> 'v session \<Rightarrow> tframe \<Rightarrow>
   error + tframe" where
  "lda_cell argsort round2_str ses topwords =
     (case word_topic (news_train_tfidf ses) (news_train_lda ses) (vocabulary ses) of
        Inl e \<Rightarrow> Inl e
      | Inr components_lda \<Rightarrow>
          (case top_words argsort round2_str components_lda n_top_words of
             Inl e \<Rightarrow> Inl e
           | Inr s \<Rightarrow> set_column topwords ''LDA'' s))"

definition nmf_cell ::
  "('v::semiring_0 list \<Rightarrow> nat list) \<Rightarrow> ('v \<Rightarrow> pystr) \<Rightarrow> 'v session \<Rightarrow> tframe \<Rightarrow>
   error + tframe" where
  "nmf_cell argsort round2_str ses topwords =
     (case word_topic (news_train_tfidf ses) (news_train_nmf ses) (vocabulary ses) of
        Inl e \<Rightarrow> Inl e
      | Inr components_nmf \<Rightarrow>
          (case top_words argsort round2_str components_nmf n_top_words of
             Inl e \<Rightarrow> Inl e
           | Inr s \<Rightarrow> set_column topwords ''NNMF'' s))"

definition topic_cells ::
  "('v::semiring_0 list \<Rightarrow> nat list) \<Rightarrow> ('v \<Rightarrow> pystr) \<Rightarrow> 'v session \<Rightarrow> error + tframe" where
  "topic_cells argsort round2_str ses =
     (case lsa_cell argsort round2_str ses of
        Inl e \<Rightarrow> Inl e
      | Inr topwords \<Rightarrow>
          (case lda_cell argsort round2_str ses topwords of
             Inl e \<Rightarrow> Inl e
           | Inr topwords \<Rightarrow> nmf_cell argsort round2_str ses topwords))"

text \<open>\<open>print(topwords.loc[topic])\<close>: for each column, the cells of the rows of that topic.\<close>

definition shown :: "tframe \<Rightarrow> nat \<Rightarrow> (string \<times> cell list) list" where
  "shown topwords topic =
     map (\<lambda>(name, cs). (name, map (\<lambda>p. cs ! p) (positions (tf_index topwords) topic)))
         (tf_columns topwords)"

text \<open>
  The way the specification says every model is treated: \<open>word_topic\<close> on the tf-idf
  matrix, the document-topic matrix of the model and the vocabulary, then \<open>top_words\<close>
  with ten words.
\<close>

definition loadings ::
  "('v::semiring_0 list \<Rightarrow> nat list) \<Rightarrow> ('v \<Rightarrow> pystr) \<Rightarrow> 'v session \<Rightarrow> 'v matrix \<Rightarrow>
   error + tseries" where
  "loadings argsort round2_str ses solution =
     (case word_topic (news_train_tfidf ses) solution (vocabulary ses) of
        Inl e \<Rightarrow> Inl e
      | Inr components \<Rightarrow> top_words argsort round2_str components 10)"

text \<open>
  What the library promises of a run: the tf-idf matrix has a column for each word of
  the vocabulary, and each model returns a row for each document and a column for each
  of the \<open>ntopics\<close> components it was built with.
\<close>

definition session_ok :: "'v session \<Rightarrow> bool" where
  "session_ok ses \<longleftrightarrow>
     wf_matrix (news_train_tfidf ses) \<and>
     length (vocabulary ses) = snd (shape (news_train_tfidf ses)) \<and>
     list_all (\<lambda>solution. wf_matrix solution \<and>
                 shape solution = (fst (shape (news_train_tfidf ses)), ntopics))
       [news_train_lsa ses, news_train_lda ses, news_train_nmf ses]"

definition example_session :: "int session" where
  "example_session =
     \<lparr>news_train_tfidf = \<lparr>shape = (1, 10), rows = [[1, 2, 3, 4, 5, 6, 7, 8, 9, 0]]\<rparr>,
      vocabulary = map (\<lambda>c. [c]) [97..<107],
      news_train_lsa = \<lparr>shape = (1, 8), rows = [[1, 1, 1, 1, 1, 1, 1, 1]]\<rparr>,
      news_train_lda = \<lparr>shape = (1, 8), rows = [[1, 0, 1, 0, 1, 0, 1, 0]]\<rparr>,
      news_train_nmf = \<lparr>shape = (1, 8), rows = [[0, 1, 0, 1, 0, 1, 0, 1]]\<rparr>\<rparr>"

section \<open>Properties of the text cleaner\<close>

subsection \<open>The patterns\<close>

lemma match_ddash_pos: "match_ddash s \<noteq> Some 0"
  by (cases s rule: match_ddash.cases) auto

lemma lazy_dots_pos: "lazy_dots s \<noteq> Some 0"
  by (induction s) auto

lemma match_bracket_pos: "match_bracket s \<noteq> Some 0"
  by (cases s) auto

lemma match_chapter_pos: "match_chapter digit s \<noteq> Some 0"
  by (simp add: match_chapter_def)

lemma re_sub_ddash: "re_sub match_ddash [space] s = replace_ddash s"
  by (induction s rule: replace_ddash.induct) auto

lemma replace_ddash_hd:
  "a \<noteq> dash \<Longrightarrow> replace_ddash (a # cs) = a # replace_ddash cs"
  by (cases cs) simp_all

lemma has_ddash_Cons:
  "has_ddash (a # cs) \<longleftrightarrow> (a = dash \<and> cs \<noteq> [] \<and> hd cs = dash) \<or> has_ddash cs"
  by (cases cs) auto

lemma replace_ddash_clean: "\<not> has_ddash (replace_ddash s)"
proof (induction s rule: replace_ddash.induct)
  case (1 a b cs)
  show ?case
  proof (cases "a = dash \<and> b = dash")
    case True
    then show ?thesis using 1 by (simp add: has_ddash_Cons dash_def space_def)
  next
    case False
    then have r: "replace_ddash (a # b # cs) = a # replace_ddash (b # cs)" by auto
    show ?thesis
    proof (cases "a = dash")
      case True
      with False have "b \<noteq> dash" by simp
      then show ?thesis using 1 False r by (simp add: has_ddash_Cons replace_ddash_hd)
    next
      case False
      then show ?thesis using 1 r by (simp add: has_ddash_Cons)
    qed
  qed
qed simp_all

lemma first_step_clean: "\<not> has_ddash (re_sub match_ddash [space] s)"
  by (simp add: re_sub_ddash replace_ddash_clean)

lemma lazy_dots_Some:
  "lazy_dots cs = Some k \<longleftrightarrow>
     closes_on_line cs \<and> k = Suc (length (takeWhile (\<lambda>x. x \<noteq> rbracket) cs))"
  by (induction cs arbitrary: k) (auto simp: closes_on_line_def)

lemma lazy_dots_None: "lazy_dots cs = None \<longleftrightarrow> \<not> closes_on_line cs"
  using lazy_dots_Some[of cs] by (cases "lazy_dots cs") auto

lemma drop_length_takeWhile: "drop (length (takeWhile P cs)) cs = dropWhile P cs"
  by (induction cs) auto

lemma re_sub_bracket: "re_sub match_bracket [] s = delete_bracketed closes_on_line s"
proof (induction closes_on_line s rule: delete_bracketed.induct)
  case 1
  then show ?case by simp
next
  case (2 c cs)
  show ?case
  proof (cases "c = lbracket \<and> closes_on_line cs")
    case True
    then obtain k where k: "lazy_dots cs = Some k"
      using lazy_dots_None[of cs] by (cases "lazy_dots cs") auto
    then have kk: "k = Suc (length (takeWhile (\<lambda>x. x \<noteq> rbracket) cs))"
      using lazy_dots_Some by blast
    have "drop k cs = after_rbracket cs"
      by (simp add: kk after_rbracket_def drop_Suc drop_length_takeWhile[symmetric] drop_tl)
    then show ?thesis using True k 2 by simp
  next
    case False
    then have "match_bracket (c # cs) = None" by (auto simp: lazy_dots_None)
    then show ?thesis using False 2 by auto
  qed
qed

lemma takeWhile_Nil_iff:
  "takeWhile P xs = [] \<longleftrightarrow> (case xs of [] \<Rightarrow> True | x # _ \<Rightarrow> \<not> P x)"
  by (cases xs) auto

lemma match_chapter_iff:
  "match_chapter digit s =
     (if chapter_heading digit s then Some (Suc (7 + length (takeWhile digit (drop 8 s))))
      else None)"
  by (auto simp: match_chapter_def chapter_heading_def takeWhile_Nil_iff split: list.splits)

lemma re_sub_chapter: "re_sub (match_chapter digit) [] s = delete_chapters digit s"
proof (induction digit s rule: delete_chapters.induct)
  case (1 digit)
  then show ?case by simp
next
  case (2 digit c cs)
  show ?case
  proof (cases "chapter_heading digit (c # cs)")
    case True
    have "drop (7 + length (takeWhile digit (drop 7 cs))) cs = dropWhile digit (drop 7 cs)"
      using drop_length_takeWhile[of digit "drop 7 cs"] by (simp add: add.commute)
    then show ?thesis using True 2 by (simp add: match_chapter_iff)
  next
    case False
    then show ?thesis using 2 by (simp add: match_chapter_iff)
  qed
qed

lemma text_cleaner_substituted:
  "text_cleaner digit s = join [space] (split (substituted digit s))"
  by (simp add: text_cleaner_def substituted_def)

lemmas cleaner_eval =
  text_cleaner_def cleaner_steps_def str_def dash_def space_def newline_def lbracket_def
  rbracket_def split_def isspace_def match_chapter_def closes_def closes_on_line_def
  after_rbracket_def chapter_heading_def ascii_digit_def stripped_def

subsection \<open>Words\<close>

lemma split_scan_words:
  "list_all (\<lambda>c. \<not> isspace c) cur \<Longrightarrow> w \<in> set (split_scan cur s) \<Longrightarrow> is_word w"
proof (induction s arbitrary: cur)
  case Nil
  then show ?case by (auto simp: is_word_def split: if_splits)
next
  case (Cons c cs)
  show ?case
  proof (cases "isspace c")
    case True
    have e: "list_all (\<lambda>c. \<not> isspace c) ([]::pystr)" by simp
    show ?thesis
    proof (cases "cur = []")
      case True
      with \<open>isspace c\<close> Cons.prems(2) have "w \<in> set (split_scan [] cs)" by simp
      then show ?thesis using Cons.IH[OF e] by simp
    next
      case False
      with \<open>isspace c\<close> Cons.prems(2) have "w = cur \<or> w \<in> set (split_scan [] cs)" by simp
      then show ?thesis using Cons.IH[OF e] False Cons.prems(1) by (auto simp: is_word_def)
    qed
  next
    case False
    then have e: "list_all (\<lambda>c. \<not> isspace c) (cur @ [c])" using Cons.prems(1) by simp
    from False Cons.prems(2) have "w \<in> set (split_scan (cur @ [c]) cs)" by simp
    then show ?thesis using Cons.IH[OF e] by simp
  qed
qed

lemma split_words: "w \<in> set (split s) \<Longrightarrow> is_word w"
  using split_scan_words[of "[]" w s] by (simp add: split_def)

lemma split_scan_word:
  "list_all (\<lambda>c. \<not> isspace c) w \<Longrightarrow> split_scan cur (w @ s) = split_scan (cur @ w) s"
  by (induction w arbitrary: cur) simp_all

lemma isspace_space: "isspace space"
  by (simp add: isspace_def space_def)

lemma split_join:
  "\<forall>w\<in>set ws. is_word w \<Longrightarrow> split (join [space] ws) = ws"
proof (induction "[space]" ws rule: join.induct)
  case 1
  then show ?case by (simp add: split_def)
next
  case (2 w)
  then have "list_all (\<lambda>c. \<not> isspace c) w" "w \<noteq> []" by (simp_all add: is_word_def)
  then show ?case using split_scan_word[of w "[]" "[]"] by (simp add: split_def)
next
  case (3 w v ws)
  then have w: "list_all (\<lambda>c. \<not> isspace c) w" "w \<noteq> []" by (simp_all add: is_word_def)
  have rest: "split_scan [] (join [space] (v # ws)) = v # ws"
    using 3 by (simp add: split_def)
  have "split_scan [] (w @ space # join [space] (v # ws))
        = split_scan w (space # join [space] (v # ws))"
    using split_scan_word[OF w(1), of "[]"] by simp
  also have "\<dots> = w # split_scan [] (join [space] (v # ws))"
    using w(2) by (simp add: isspace_space)
  finally show ?case using rest by (simp add: split_def)
qed

lemma no_double_space_Cons:
  "no_double_space (a # cs) \<longleftrightarrow>
     (cs = [] \<or> \<not> (isspace a \<and> isspace (hd cs))) \<and> no_double_space cs"
  by (cases cs) auto

lemma no_double_space_append:
  "no_double_space (xs @ ys) \<longleftrightarrow>
     no_double_space xs \<and> no_double_space ys \<and>
     (xs \<noteq> [] \<and> ys \<noteq> [] \<longrightarrow> \<not> (isspace (last xs) \<and> isspace (hd ys)))"
proof (induction xs)
  case Nil
  then show ?case by simp
next
  case (Cons a xs)
  show ?case
  proof (cases xs)
    case Nil
    then show ?thesis by (auto simp: no_double_space_Cons)
  next
    case (Cons b bs)
    then show ?thesis using Cons.IH by (auto simp: no_double_space_Cons)
  qed
qed

lemma word_no_double_space: "is_word w \<Longrightarrow> no_double_space w"
  by (induction w rule: no_double_space.induct) (auto simp: is_word_def)

lemma join_Nil_iff: "\<forall>w\<in>set ws. is_word w \<Longrightarrow> join sep ws = [] \<longleftrightarrow> ws = []"
  by (induction sep ws rule: join.induct) (auto simp: is_word_def)

lemma hd_join: "\<forall>w\<in>set ws. is_word w \<Longrightarrow> ws \<noteq> [] \<Longrightarrow> hd (join sep ws) = hd (hd ws)"
  by (induction sep ws rule: join.induct) (auto simp: is_word_def)

lemma last_join:
  "\<forall>w\<in>set ws. is_word w \<Longrightarrow> ws \<noteq> [] \<Longrightarrow> last (join sep ws) = last (last ws)"
  by (induction sep ws rule: join.induct) (auto simp: is_word_def join_Nil_iff)

lemma set_join: "set (join sep ws) \<subseteq> set sep \<union> \<Union> (set ` set ws)"
  by (induction sep ws rule: join.induct) auto

lemma join_no_double_space:
  "\<forall>w\<in>set ws. is_word w \<Longrightarrow> no_double_space (join [space] ws)"
proof (induction "[space]" ws rule: join.induct)
  case 1
  then show ?case by simp
next
  case (2 w)
  then show ?case by (simp add: word_no_double_space)
next
  case (3 w v ws)
  have w: "is_word w" and v: "is_word v" using 3 by auto
  have rest: "no_double_space (join [space] (v # ws))" using 3 by auto
  have hdrest: "hd (join [space] (v # ws)) = hd v" using 3 hd_join[of "v # ws"] by simp
  have ne: "join [space] (v # ws) \<noteq> []" using 3 join_Nil_iff[of "v # ws"] by simp
  have nv: "\<not> isspace (hd v)" using v by (cases v) (simp_all add: is_word_def)
  have "no_double_space (space # join [space] (v # ws))"
    using rest hdrest ne nv by (cases "join [space] (v # ws)") auto
  moreover have "\<not> isspace (last w)"
    using w by (simp add: is_word_def list_all_iff)
  ultimately show ?case using w
    by (simp add: no_double_space_append word_no_double_space is_word_def)
qed

lemma join_stripped: "\<forall>w\<in>set ws. is_word w \<Longrightarrow> stripped (join sep ws)"
proof (cases ws)
  case Nil
  then show ?thesis by (simp add: stripped_def)
next
  case (Cons a list)
  assume a: "\<forall>w\<in>set ws. is_word w"
  then have ne: "join sep ws \<noteq> []" using Cons join_Nil_iff[of ws sep] by simp
  have h: "hd (join sep ws) = hd (hd ws)" and l: "last (join sep ws) = last (last ws)"
    using a Cons hd_join[of ws sep] last_join[of ws sep] by simp_all
  have "is_word (hd ws)" "is_word (last ws)" using a Cons by auto
  then have "\<not> isspace (hd (hd ws))" "\<not> isspace (last (last ws))"
    by (auto simp: is_word_def list_all_iff)
  then show ?thesis using ne h l by (cases "join sep ws") (auto simp: stripped_def)
qed

lemma join_only_spaces:
  assumes "\<forall>w\<in>set ws. is_word w" and "c \<in> set (join [space] ws)" and "isspace c"
  shows "c = space"
proof -
  have "c \<in> set [space] \<union> \<Union> (set ` set ws)" using assms(2) set_join by blast
  moreover have "c \<notin> \<Union> (set ` set ws)"
    using assms(1,3) by (auto simp: is_word_def list_all_iff)
  ultimately show ?thesis by simp
qed

subsection \<open>The claims about the cleaner\<close>

text \<open>
  Claim C2, as amended: \<open>text_cleaner\<close> applies, in this order: (1) every double dash
  becomes a single space; (2) every piece that starts with an opening bracket and ends
  with the first closing bracket behind it is deleted, provided no newline lies between
  the two brackets; (3) every \<open>Chapter\<close>, space and run of one or more digits is
  deleted; (4) the result is split on whitespace and joined with single spaces.
\<close>

theorem text_cleaner_steps:
  "text_cleaner digit s = cleaner_steps closes_on_line digit s"
  by (simp add: text_cleaner_def cleaner_steps_def re_sub_ddash re_sub_bracket re_sub_chapter)

text \<open>
  Claim C2, as stated, asks step (2) to delete every shortest bracketed piece. A piece
  with a newline between its brackets is kept by the code: the dot of the pattern does
  not match a newline.
\<close>

theorem text_cleaner_bracket_newline_counterexample:
  "text_cleaner ascii_digit (str ''[a'' @ [newline] @ str ''b]'') = str ''[a b]'' \<and>
   cleaner_steps closes ascii_digit (str ''[a'' @ [newline] @ str ''b]'') = [] \<and>
   text_cleaner ascii_digit (str ''[a'' @ [newline] @ str ''b]'')
     \<noteq> cleaner_steps closes ascii_digit (str ''[a'' @ [newline] @ str ''b]'')"
  by (simp add: cleaner_eval)

text \<open>
  Claim C5 says that the cleaned text never contains a double dash. The first step
  leaves none (\<open>first_step_clean\<close>), but it comes first: a bracketed piece deleted
  afterwards between two single dashes joins them into a double dash that stays.
  \<^verbatim>\<open>-[x]-\<close> is cleaned to \<^verbatim>\<open>--\<close>.
\<close>

theorem text_cleaner_joins_dashes:
  "text_cleaner digit (str ''-[x]-'') = str ''--'' \<and>
   has_ddash (text_cleaner digit (str ''-[x]-''))"
  by (simp add: cleaner_eval)

text \<open>
  Claim C8: the cleaned text has no whitespace at either end and no two whitespace
  characters in a row; its only whitespace characters are single spaces, and its words
  are the words of the text left by the substitutions.
\<close>

theorem text_cleaner_whitespace:
  "stripped (text_cleaner digit s) \<and>
   no_double_space (text_cleaner digit s) \<and>
   (\<forall>c\<in>set (text_cleaner digit s). isspace c \<longrightarrow> c = space) \<and>
   split (text_cleaner digit s) = split (substituted digit s)"
proof -
  let ?ws = "split (substituted digit s)"
  have w: "\<forall>w\<in>set ?ws. is_word w" using split_words by blast
  show ?thesis
    unfolding text_cleaner_substituted
    using join_stripped[OF w] join_no_double_space[OF w] join_only_spaces[OF w] split_join[OF w]
    by blast
qed

theorem text_cleaner_whitespace_witness:
  "text_cleaner ascii_digit (str '' a--b  Chapter 12 c '') = str ''a b c'' \<and>
   stripped (str ''a b c'') \<and> no_double_space (str ''a b c'') \<and>
   space \<in> set (str ''a b c'') \<and> isspace space \<and>
   split (str ''a b c'') = split (substituted ascii_digit (str '' a--b  Chapter 12 c ''))"
proof -
  have e: "text_cleaner ascii_digit (str '' a--b  Chapter 12 c '') = str ''a b c''"
    by (simp add: cleaner_eval)
  have m: "space \<in> set (str ''a b c'')"
    by (simp add: str_def space_def)
  show ?thesis
    using text_cleaner_whitespace[of ascii_digit "str '' a--b  Chapter 12 c ''"] m
    unfolding e by (simp add: isspace_space)
qed


section \<open>Properties of the newsgroups helpers\<close>

subsection \<open>\<open>word_topic\<close>\<close>

lemma dot_columns:
  fixes a b :: "'v::semiring_0 matrix"
  assumes "length (rows a) = d" "length (rows b) = d"
  shows "dot (column a i) (column b j) = (\<Sum>l<d. entry a l i * entry b l j)"
proof -
  have "dot (column a i) (column b j)
        = (\<Sum>l = 0..<d. map (\<lambda>(x, y). x * y) (zip (column a i) (column b j)) ! l)"
    using assms by (simp add: dot_def sum_list_sum_nth column_def)
  also have "\<dots> = (\<Sum>l = 0..<d. entry a l i * entry b l j)"
    using assms by (intro sum.cong) (simp_all add: column_def entry_def)
  finally show ?thesis by (simp add: lessThan_atLeast0)
qed

lemma entry_T:
  "i < snd (shape a) \<Longrightarrow> l < length (rows a) \<Longrightarrow> entry (T a) i l = entry a l i"
  by (simp add: T_def entry_def column_def)

lemma word_topic_value:
  fixes tfidf solution :: "'v::semiring_0 matrix"
  assumes "fst (shape tfidf) = fst (shape solution)"
    and "length wordlist = snd (shape tfidf)"
  shows "word_topic tfidf solution wordlist =
           Inr \<lparr>df_index = wordlist,
                df_values = \<lparr>shape = (snd (shape tfidf), snd (shape solution)),
                  rows = map (\<lambda>r. map (\<lambda>j. dot r (column solution j))
                                      [0..<snd (shape solution)]) (rows (T tfidf))\<rparr>\<rparr>"
  using assms by (simp add: word_topic_def matmul_def T_def DataFrame_def)

lemma word_topic_frame:
  fixes tfidf solution :: "'v::semiring_0 matrix"
  assumes "fst (shape tfidf) = fst (shape solution)"
    and "length wordlist = snd (shape tfidf)"
  shows "\<exists>components. word_topic tfidf solution wordlist = Inr components \<and>
           df_index components = wordlist \<and>
           df_shape components = (snd (shape tfidf), snd (shape solution)) \<and>
           wf_dataframe components"
  using assms
  by (simp add: word_topic_value wf_dataframe_def wf_matrix_def T_def list_all_iff df_shape_def)

text \<open>
  Claim C3: for a term-document matrix and a document-topic matrix with the same number
  of documents, and one word for each term, \<open>word_topic\<close> returns a data frame whose
  row labels are the word list, in order, and whose values are the matrix product of
  the transposed term-document matrix with the document-topic matrix: the loading of
  word \<open>i\<close> on topic \<open>j\<close> is the sum over the documents \<open>l\<close> of \<open>tfidf[l][i] * solution[l][j]\<close>.
\<close>

theorem word_topic_product:
  fixes tfidf solution :: "'v::semiring_0 matrix"
  assumes "wf_matrix tfidf" and "wf_matrix solution"
    and "fst (shape tfidf) = fst (shape solution)"
    and "length wordlist = snd (shape tfidf)"
  shows "\<exists>components. word_topic tfidf solution wordlist = Inr components \<and>
           df_index components = wordlist \<and>
           df_shape components = (snd (shape tfidf), snd (shape solution)) \<and>
           wf_dataframe components \<and>
           (\<forall>i<snd (shape tfidf). \<forall>j<snd (shape solution).
              entry (df_values components) i j =
                (\<Sum>l<fst (shape tfidf). entry (T tfidf) i l * entry solution l j) \<and>
              entry (df_values components) i j =
                (\<Sum>l<fst (shape tfidf). entry tfidf l i * entry solution l j))"
proof -
  let ?d = "fst (shape tfidf)" and ?v = "snd (shape tfidf)" and ?k = "snd (shape solution)"
  let ?p = "\<lparr>shape = (?v, ?k),
             rows = map (\<lambda>r. map (\<lambda>j. dot r (column solution j)) [0..<?k]) (rows (T tfidf))\<rparr>"
  have lt: "length (rows tfidf) = ?d" and ls: "length (rows solution) = ?d"
    using assms by (simp_all add: wf_matrix_def)
  have wt: "word_topic tfidf solution wordlist = Inr \<lparr>df_index = wordlist, df_values = ?p\<rparr>"
    by (rule word_topic_value[OF assms(3,4)])
  have wf: "wf_dataframe \<lparr>df_index = wordlist, df_values = ?p\<rparr>"
    using assms(4) by (simp add: wf_dataframe_def wf_matrix_def T_def list_all_iff)
  have ent: "entry ?p i j = (\<Sum>l<?d. entry tfidf l i * entry solution l j)"
    if "i < ?v" "j < ?k" for i j
  proof -
    have "entry ?p i j = dot (column tfidf i) (column solution j)"
      using that by (simp add: entry_def T_def)
    also have "\<dots> = (\<Sum>l<?d. entry tfidf l i * entry solution l j)"
      by (rule dot_columns[OF lt ls])
    finally show ?thesis .
  qed
  have entT: "(\<Sum>l<?d. entry (T tfidf) i l * entry solution l j)
              = (\<Sum>l<?d. entry tfidf l i * entry solution l j)"
    if "i < ?v" for i j
    using that lt by (intro sum.cong) (simp_all add: entry_T)
  show ?thesis using wt wf ent entT by (simp add: df_shape_def)
qed

theorem word_topic_product_witness:
  "wf_matrix example_tfidf \<and> wf_matrix example_solution \<and>
   fst (shape example_tfidf) = fst (shape example_solution) \<and>
   length [str ''car'', str ''god'', str ''gun''] = snd (shape example_tfidf) \<and>
   word_topic example_tfidf example_solution [str ''car'', str ''god'', str ''gun''] =
     Inr \<lparr>df_index = [str ''car'', str ''god'', str ''gun''],
          df_values = \<lparr>shape = (3, 2), rows = [[1, 2], [9, 12], [5, 8]]\<rparr>\<rparr> \<and>
   (\<exists>components.
      word_topic example_tfidf example_solution [str ''car'', str ''god'', str ''gun'']
        = Inr components \<and>
      entry (df_values components) 2 1 =
        (\<Sum>l<2. entry example_tfidf l 2 * entry example_solution l 1))"
proof -
  have h1: "wf_matrix example_tfidf" and h2: "wf_matrix example_solution"
    by (simp_all add: wf_matrix_def example_tfidf_def example_solution_def)
  have h3: "fst (shape example_tfidf) = fst (shape example_solution)"
    by (simp add: example_tfidf_def example_solution_def)
  have h4: "length [str ''car'', str ''god'', str ''gun''] = snd (shape example_tfidf)"
    by (simp add: example_tfidf_def)
  have v: "word_topic example_tfidf example_solution [str ''car'', str ''god'', str ''gun''] =
     Inr \<lparr>df_index = [str ''car'', str ''god'', str ''gun''],
          df_values = \<lparr>shape = (3, 2), rows = [[1, 2], [9, 12], [5, 8]]\<rparr>\<rparr>"
    by (simp add: word_topic_def matmul_def T_def DataFrame_def dot_def column_def
        example_tfidf_def example_solution_def upt_conv_Cons)
  have s: "snd (shape example_tfidf) = 3" "snd (shape example_solution) = 2"
      "fst (shape example_tfidf) = 2"
    by (simp_all add: example_tfidf_def example_solution_def)
  from word_topic_product[OF h1 h2 h3 h4] obtain components where
    c: "word_topic example_tfidf example_solution [str ''car'', str ''god'', str ''gun'']
          = Inr components"
    and e: "\<forall>i<3. \<forall>j<2. entry (df_values components) i j =
              (\<Sum>l<2. entry example_tfidf l i * entry example_solution l j)"
    unfolding s by blast
  from e have "entry (df_values components) 2 1 =
        (\<Sum>l<2. entry example_tfidf l 2 * entry example_solution l 1)"
    by simp
  with c h1 h2 h3 h4 v show ?thesis by blast
qed


subsection \<open>Assignment by label\<close>

lemma set_positions: "set (positions idx c) = {p. p < length idx \<and> idx ! p = c}"
  by (auto simp: positions_def)

lemma distinct_positions: "distinct (positions idx c)"
  by (simp add: positions_def)

lemma length_assign: "length (assign cells ps vs) = length cells"
proof -
  have "length (fold (\<lambda>(p, v) cs. cs[p := Str v]) pvs cells) = length cells" for pvs
    by (induction pvs arbitrary: cells) (auto split: prod.splits)
  then show ?thesis by (simp add: assign_def)
qed

lemma assign_Cons: "assign cells (p # ps) (v # vs) = assign (cells[p := Str v]) ps vs"
  by (simp add: assign_def)

lemma assign_other: "q \<notin> set ps \<Longrightarrow> assign cells ps vs ! q = cells ! q"
proof (induction ps arbitrary: cells vs)
  case Nil
  then show ?case by (simp add: assign_def)
next
  case (Cons p ps)
  then show ?case by (cases vs) (auto simp: assign_Cons, simp add: assign_def)
qed

lemma assign_these:
  "length ps = length vs \<Longrightarrow> distinct ps \<Longrightarrow> \<forall>p\<in>set ps. p < length cells \<Longrightarrow>
   map (\<lambda>p. assign cells ps vs ! p) ps = map Str vs"
proof (induction ps vs arbitrary: cells rule: list_induct2)
  case Nil
  then show ?case by simp
next
  case (Cons p ps v vs)
  have "assign (cells[p := Str v]) ps vs ! p = Str v"
    using Cons.prems by (simp add: assign_other)
  moreover have "map (\<lambda>q. assign (cells[p := Str v]) ps vs ! q) ps = map Str vs"
    using Cons.prems by (intro Cons.IH) simp_all
  ultimately show ?case by (simp add: assign_Cons)
qed

lemma loc_set_result:
  assumes wf: "length (ts_values s) = length (ts_index s)"
    and n: "length (positions (ts_index s) c) = n" "1 \<le> n"
    and v: "2 \<le> n \<longrightarrow> length v = n"
  shows "\<exists>s'. loc_set s c v = Inr s' \<and> ts_index s' = ts_index s \<and>
           length (ts_values s') = length (ts_values s) \<and>
           cells_at s' c = (if n = 1 then [Seq v] else map Str v) \<and>
           (\<forall>c'. c' \<noteq> c \<longrightarrow> cells_at s' c' = cells_at s c')"
proof (cases "n = 1")
  case True
  then obtain p where p: "positions (ts_index s) c = [p]"
    using n(1) by (cases "positions (ts_index s) c") auto
  then have pin: "p \<in> set (positions (ts_index s) c)" by simp
  then have plt: "p < length (ts_values s)" and pc: "ts_index s ! p = c"
    using wf by (simp_all add: set_positions)
  let ?s' = "s\<lparr>ts_values := (ts_values s)[p := Seq v]\<rparr>"
  have "loc_set s c v = Inr ?s'" by (simp add: loc_set_def p)
  moreover have "cells_at ?s' c = [Seq v]" using plt by (simp add: cells_at_def p)
  moreover have "cells_at ?s' c' = cells_at s c'" if "c' \<noteq> c" for c'
  proof -
    have "p \<notin> set (positions (ts_index s) c')" using that pc by (simp add: set_positions)
    then have "\<forall>x\<in>set (positions (ts_index s) c'). p \<noteq> x" by blast
    then show ?thesis by (simp add: cells_at_def)
  qed
  ultimately show ?thesis using True by auto
next
  case False
  let ?ps = "positions (ts_index s) c"
  from False n have n2: "2 \<le> n" by simp
  then obtain p q qs where ps: "?ps = p # q # qs"
    using n(1) by (cases ?ps; cases "tl ?ps") auto
  let ?s' = "s\<lparr>ts_values := assign (ts_values s) ?ps v\<rparr>"
  have len: "length v = length ?ps" using v n2 n(1) by simp
  have "loc_set s c v = Inr ?s'" using len by (simp add: loc_set_def ps)
  moreover have "cells_at ?s' c = map Str v"
    using assign_these[OF len[symmetric] distinct_positions, of "ts_values s"] wf
    by (simp add: cells_at_def set_positions)
  moreover have "cells_at ?s' c' = cells_at s c'" if "c' \<noteq> c" for c'
  proof -
    have "\<forall>r\<in>set (positions (ts_index s) c'). r \<notin> set ?ps"
      using that by (simp add: set_positions)
    then show ?thesis by (simp add: cells_at_def assign_other)
  qed
  ultimately show ?thesis using False by (auto simp: length_assign)
qed


lemma top_words_loop_result:
  assumes "length (ts_values tw) = length (ts_index tw)"
    and "distinct cols"
    and "\<forall>c\<in>set cols. length (positions (ts_index tw) c) = n"
    and "1 \<le> n"
    and "\<forall>c\<in>set cols. length (top_words_column argsort fmt comps m c) = n"
  shows "\<exists>tw'. top_words_loop argsort fmt comps m cols tw = Inr tw' \<and>
           ts_index tw' = ts_index tw \<and>
           length (ts_values tw') = length (ts_values tw) \<and>
           (\<forall>c\<in>set cols. cells_at tw' c =
              (if n = 1 then [Seq (top_words_column argsort fmt comps m c)]
               else map Str (top_words_column argsort fmt comps m c))) \<and>
           (\<forall>c. c \<notin> set cols \<longrightarrow> cells_at tw' c = cells_at tw c)"
  using assms
proof (induction cols arbitrary: tw)
  case Nil
  then show ?case by simp
next
  case (Cons c cols)
  let ?v = "top_words_column argsort fmt comps m c"
  have "\<exists>s'. loc_set tw c ?v = Inr s' \<and> ts_index s' = ts_index tw \<and>
           length (ts_values s') = length (ts_values tw) \<and>
           cells_at s' c = (if n = 1 then [Seq ?v] else map Str ?v) \<and>
           (\<forall>c'. c' \<noteq> c \<longrightarrow> cells_at s' c' = cells_at tw c')"
    using Cons.prems by (intro loc_set_result) simp_all
  then obtain s' where s': "loc_set tw c ?v = Inr s'" "ts_index s' = ts_index tw"
      "length (ts_values s') = length (ts_values tw)"
      "cells_at s' c = (if n = 1 then [Seq ?v] else map Str ?v)"
      "\<And>c'. c' \<noteq> c \<Longrightarrow> cells_at s' c' = cells_at tw c'"
    by blast
  have "\<exists>tw'. top_words_loop argsort fmt comps m cols s' = Inr tw' \<and>
           ts_index tw' = ts_index s' \<and>
           length (ts_values tw') = length (ts_values s') \<and>
           (\<forall>c\<in>set cols. cells_at tw' c =
              (if n = 1 then [Seq (top_words_column argsort fmt comps m c)]
               else map Str (top_words_column argsort fmt comps m c))) \<and>
           (\<forall>c. c \<notin> set cols \<longrightarrow> cells_at tw' c = cells_at s' c)"
    using Cons.prems s'(2,3) by (intro Cons.IH) simp_all
  then obtain tw' where tw': "top_words_loop argsort fmt comps m cols s' = Inr tw'"
      "ts_index tw' = ts_index s'" "length (ts_values tw') = length (ts_values s')"
      "\<And>d. d \<in> set cols \<Longrightarrow> cells_at tw' d =
              (if n = 1 then [Seq (top_words_column argsort fmt comps m d)]
               else map Str (top_words_column argsort fmt comps m d))"
      "\<And>d. d \<notin> set cols \<Longrightarrow> cells_at tw' d = cells_at s' d"
    by blast
  have cnot: "c \<notin> set cols" using Cons.prems(2) by simp
  have run: "top_words_loop argsort fmt comps m (c # cols) tw = Inr tw'"
    by (simp add: s'(1) tw'(1))
  have at_c: "cells_at tw' c = (if n = 1 then [Seq ?v] else map Str ?v)"
    using tw'(5)[OF cnot] s'(4) by simp
  have others: "cells_at tw' d = cells_at tw d" if "d \<notin> set (c # cols)" for d
    using that tw'(5)[of d] s'(5)[of d] by simp
  show ?case
    using run tw'(2,3) s'(2,3) at_c tw'(4) others by auto
qed

subsection \<open>The index built by \<open>repeat\<close>\<close>

lemma upt_split: "[0..<a + b] = [0..<a] @ map (\<lambda>p. a + p) [0..<b]"
  by (induction b) simp_all

lemma positions_append:
  "positions (xs @ ys) c = positions xs c @ map (\<lambda>p. length xs + p) (positions ys c)"
proof -
  have a: "filter (\<lambda>p. (xs @ ys) ! p = c) [0..<length xs] = filter (\<lambda>p. xs ! p = c) [0..<length xs]"
    by (rule filter_cong) (simp_all add: nth_append)
  have b: "filter (\<lambda>p. (xs @ ys) ! p = c) (map (\<lambda>p. length xs + p) [0..<length ys])
           = map (\<lambda>p. length xs + p) (filter (\<lambda>p. ys ! p = c) [0..<length ys])"
    by (simp add: filter_map o_def)
  show ?thesis
    unfolding positions_def by (simp only: length_append upt_split filter_append a b)
qed

lemma positions_replicate:
  "length (positions (replicate n k) c) = (if c = k then n else 0)"
proof -
  have "filter (\<lambda>p. replicate n k ! p = c) [0..<n] = filter (\<lambda>p. k = c) [0..<n]"
    by (rule filter_cong) simp_all
  then show ?thesis by (simp add: positions_def)
qed

lemma length_positions_repeat:
  "length (positions (repeat [0..<k] n) c) = (if c < k then n else 0)"
proof (induction k)
  case 0
  then show ?case by (simp add: repeat_def positions_def)
next
  case (Suc k)
  have "repeat [0..<Suc k] n = repeat [0..<k] n @ replicate n k"
    by (simp add: repeat_def)
  then show ?case using Suc by (auto simp: positions_append positions_replicate)
qed

lemma length_repeat: "length (repeat [0..<k] n) = k * n"
  by (induction k) (simp_all add: repeat_def)

lemma count_list_replicate: "count_list (replicate n k) c = (if c = k then n else 0)"
  by (induction n) auto

lemma count_list_repeat: "count_list (repeat [0..<k] n) c = (if c < k then n else 0)"
proof (induction k)
  case 0
  then show ?case by (simp add: repeat_def)
next
  case (Suc k)
  have "repeat [0..<Suc k] n = repeat [0..<k] n @ replicate n k"
    by (simp add: repeat_def)
  then show ?case using Suc by (auto simp: count_list_replicate)
qed

lemma set_repeat: "set (repeat [0..<k] n) \<subseteq> {0..<k}"
  by (auto simp: repeat_def)

lemma sorted_repeat: "sorted (repeat [0..<k] n)"
proof (induction k)
  case 0
  then show ?case by (simp add: repeat_def)
next
  case (Suc k)
  have e: "repeat [0..<Suc k] n = repeat [0..<k] n @ replicate n k"
    by (simp add: repeat_def)
  have "\<forall>x\<in>set (repeat [0..<k] n). x \<le> k" using set_repeat[of k n] by auto
  then show ?case using Suc unfolding e by (simp add: sorted_append)
qed

subsection \<open>Sorting and choosing\<close>

lemma argsort_ok_length: "argsort_ok argsort xs \<Longrightarrow> length (argsort xs) = length xs"
  unfolding argsort_ok_def by (metis length_sort length_upt diff_zero)




lemma top_words_column_eq:
  "top_words_column argsort fmt comps n c =
     map (\<lambda>i. label_loading fmt (df_index comps ! i) (column (df_values comps) c ! i))
         (take n (rev (argsort (column (df_values comps) c))))"
  by (simp add: top_words_column_def chosen_list_def head_def sort_values_desc_def
      iloc_column_def Let_def take_map zip_map_map zip_same_conv_map o_def)

lemma length_column: "length (column a c) = length (rows a)"
  by (simp add: column_def)


lemma length_top_words_column:
  fixes comps :: "'v::linorder dataframe"
  assumes "wf_dataframe comps" and "n \<le> fst (df_shape comps)"
    and "argsort_ok argsort (column (df_values comps) c)"
  shows "length (top_words_column argsort fmt comps n c) = n"
proof -
  have "length (column (df_values comps) c) = fst (df_shape comps)"
    using assms(1) by (simp add: length_column wf_dataframe_def wf_matrix_def df_shape_def)
  then show ?thesis
    using assms(2) argsort_ok_length[OF assms(3)] by (simp add: top_words_column_eq)
qed

lemma top_words_cells:
  fixes comps :: "'v::linorder dataframe"
  assumes wf: "wf_dataframe comps" and n1: "1 \<le> n" and rows: "n \<le> fst (df_shape comps)"
    and ok: "\<forall>c<snd (df_shape comps). argsort_ok argsort (column (df_values comps) c)"
  shows "\<exists>tw. top_words argsort fmt comps n = Inr tw \<and>
           ts_index tw = repeat [0..<snd (df_shape comps)] n \<and>
           length (ts_values tw) = snd (df_shape comps) * n \<and>
           (\<forall>c<snd (df_shape comps). cells_at tw c =
              (if n = 1 then [Seq (top_words_column argsort fmt comps n c)]
               else map Str (top_words_column argsort fmt comps n c)))"
proof -
  let ?k = "snd (df_shape comps)"
  let ?idx = "repeat [0..<?k] n"
  have a1: "length (ts_values (Series ?idx)) = length (ts_index (Series ?idx))"
    by (simp add: Series_def)
  have a2: "distinct [0..<?k]" by simp
  have a3: "\<forall>c\<in>set [0..<?k]. length (positions (ts_index (Series ?idx)) c) = n"
    by (simp add: Series_def length_positions_repeat)
  have a5: "\<forall>c\<in>set [0..<?k]. length (top_words_column argsort fmt comps n c) = n"
    using length_top_words_column[OF wf rows] ok by simp
  from top_words_loop_result[OF a1 a2 a3 n1 a5]
  obtain tw where tw: "top_words_loop argsort fmt comps n [0..<?k] (Series ?idx) = Inr tw"
      "ts_index tw = ts_index (Series ?idx)"
      "length (ts_values tw) = length (ts_values (Series ?idx))"
      "\<forall>c\<in>set [0..<?k]. cells_at tw c =
              (if n = 1 then [Seq (top_words_column argsort fmt comps n c)]
               else map Str (top_words_column argsort fmt comps n c))"
    by blast
  have "top_words argsort fmt comps n = Inr tw"
    using tw(1) by (simp add: top_words_def Let_def)
  moreover have "ts_index tw = ?idx" using tw(2) by (simp add: Series_def)
  moreover have "length (ts_values tw) = ?k * n"
    using tw(3) by (simp add: Series_def length_repeat)
  ultimately show ?thesis using tw(4) by auto
qed

subsection \<open>The claims about \<open>top_words\<close>\<close>


lemma example_frame_wf: "wf_dataframe example_frame"
  by (simp add: wf_dataframe_def wf_matrix_def example_frame_def)

lemma example_frame_rows: "2 \<le> fst (df_shape example_frame)"
  by (simp add: df_shape_def example_frame_def)

lemma example_argsort_0: "argsort_ok insertion_argsort (column (df_values example_frame) 0)"
  by (simp add: argsort_ok_def insertion_argsort_def example_frame_def column_def)

lemma example_argsort_1: "argsort_ok insertion_argsort (column (df_values example_frame) 1)"
  by (simp add: argsort_ok_def insertion_argsort_def example_frame_def column_def)

lemma example_argsort_all:
  "\<forall>c<snd (df_shape example_frame).
     argsort_ok insertion_argsort (column (df_values example_frame) c)"
proof -
  have "snd (df_shape example_frame) = Suc (Suc 0)"
    by (simp add: df_shape_def example_frame_def)
  then show ?thesis
    using example_argsort_0 example_argsort_1 by (simp add: All_less_Suc)
qed




text \<open>
  Claim C9: for a data frame with at least \<open>n\<close> rows and \<open>n\<close> at least 1,
  the series returned by \<open>top_words\<close> has as many entries as the frame has columns times
  \<open>n\<close>; its index holds each column number exactly \<open>n\<close> times and
  nothing else, in ascending order: first the entries of column 0, then those of column
  1, and so on.
\<close>

theorem top_words_index:
  fixes components :: "'v::linorder dataframe"
  assumes "wf_dataframe components"
    and "1 \<le> n"
    and "n \<le> fst (df_shape components)"
    and "\<forall>c<snd (df_shape components). argsort_ok argsort (column (df_values components) c)"
  shows "\<exists>topwords. top_words argsort round2_str components n = Inr topwords \<and>
           length (ts_values topwords) = snd (df_shape components) * n \<and>
           length (ts_index topwords) = snd (df_shape components) * n \<and>
           (\<forall>c. count_list (ts_index topwords) c =
                  (if c < snd (df_shape components) then n else 0)) \<and>
           sorted (ts_index topwords) \<and>
           ts_index topwords =
             concat (map (replicate n) [0..<snd (df_shape components)])"
proof -
  from top_words_cells[OF assms]
  obtain tw where tw: "top_words argsort round2_str components n = Inr tw"
    and idx: "ts_index tw = repeat [0..<snd (df_shape components)] n"
    and len: "length (ts_values tw) = snd (df_shape components) * n"
    by blast
  have "length (ts_index tw) = snd (df_shape components) * n"
    by (simp add: idx length_repeat)
  moreover have "\<forall>c. count_list (ts_index tw) c =
                  (if c < snd (df_shape components) then n else 0)"
    by (simp only: idx count_list_repeat) simp
  moreover have "sorted (ts_index tw)" by (simp only: idx sorted_repeat)
  moreover have "ts_index tw =
      concat (map (replicate n) [0..<snd (df_shape components)])"
    by (simp add: idx repeat_def)
  ultimately show ?thesis using tw len by blast
qed

theorem top_words_index_witness:
  "wf_dataframe example_frame \<and> (1::nat) \<le> 2 \<and> 2 \<le> fst (df_shape example_frame) \<and>
   argsort_ok insertion_argsort (column (df_values example_frame) 0) \<and>
   argsort_ok insertion_argsort (column (df_values example_frame) 1) \<and>
   (\<exists>topwords. top_words insertion_argsort digit_str example_frame 2 = Inr topwords \<and>
      length (ts_values topwords) = snd (df_shape example_frame) * 2 \<and>
      length (ts_index topwords) = snd (df_shape example_frame) * 2 \<and>
      (\<forall>c. count_list (ts_index topwords) c =
             (if c < snd (df_shape example_frame) then 2 else 0)) \<and>
      sorted (ts_index topwords) \<and>
      ts_index topwords = concat (map (replicate 2) [0..<snd (df_shape example_frame)])) \<and>
   concat (map (replicate 2) [0..<snd (df_shape example_frame)]) = [0, 0, 1, 1]"
proof -
  have one: "(1::nat) \<le> 2" by simp
  note inst = top_words_index[OF example_frame_wf one example_frame_rows example_argsort_all,
      of digit_str]
  have e: "concat (map (replicate 2) [0..<snd (df_shape example_frame)]) = [0, 0, 1, 1]"
    by (simp add: df_shape_def example_frame_def upt_conv_Cons numeral_2_eq_2)
  show ?thesis
    using inst example_frame_wf one example_frame_rows example_argsort_0 example_argsort_1 e
    by blast
qed


section \<open>Properties of the helpers on the store\<close>

lemma fetch_append: "a < length h \<Longrightarrow> fetch (h @ xs) a = fetch h a"
  by (simp add: fetch_def nth_append)

lemma fetch_new: "fetch (h @ x # xs) (length h) = Some x"
  by (simp add: fetch_def)

lemma take_put: "L \<le> a \<Longrightarrow> take L (put h a x) = take L h"
  by (simp add: put_def)

lemma length_put: "length (put h a x) = length h"
  by (simp add: put_def)

lemma fetch_put_other: "a \<noteq> b \<Longrightarrow> fetch (put h a x) b = fetch h b"
  by (simp add: fetch_def put_def)

lemma fetch_put_same: "a < length h \<Longrightarrow> fetch (put h a x) a = Some x"
  by (simp add: fetch_def put_def)

lemma top_words_loop_st_frame:
  assumes "top_words_loop_st argsort fmt components n cols topwords h = (r, h')"
    and "L \<le> topwords" and "L \<le> length h"
  shows "take L h' = take L h \<and> L \<le> length h'"
  using assms
proof (induction cols arbitrary: h)
  case Nil
  then show ?case by simp
next
  case (Cons col cols)
  let ?h1 = "h @ [View components col]"
  show ?case
  proof (cases "read_series ?h1 (length h)")
    case None
    then show ?thesis using Cons.prems by (auto simp: alloc_def Let_def)
  next
    case (Some s)
    let ?sw = "sort_values_desc argsort s"
    let ?cl = "chosen_list fmt (head n ?sw)"
    let ?h4 = "h @ [View components col, Column ?sw, Column (head n ?sw), Words ?cl]"
    have t4: "take L ?h4 = take L h" "L \<le> length ?h4" using Cons.prems(3) by simp_all
    show ?thesis
    proof (cases "fetch ?h4 topwords")
      case None
      then show ?thesis using Cons.prems(1) Some t4 by (auto simp: alloc_def Let_def)
    next
      case (Some ob)
      note ob = this
      show ?thesis
      proof (cases ob)
        case (Topics tw)
        show ?thesis
        proof (cases "loc_set tw col ?cl")
          case (Inl e)
          then show ?thesis using Cons.prems(1) \<open>read_series ?h1 (length h) = Some s\<close> ob Topics t4
            by (auto simp: alloc_def Let_def)
        next
          case (Inr tw')
          let ?h5 = "put ?h4 topwords (Topics tw')"
          have run: "top_words_loop_st argsort fmt components n cols topwords ?h5 = (r, h')"
            using Cons.prems(1) \<open>read_series ?h1 (length h) = Some s\<close> ob Topics Inr
            by (simp add: alloc_def Let_def)
          have l5: "L \<le> length ?h5" using t4(2) by (simp add: length_put)
          have "take L h' = take L ?h5 \<and> L \<le> length h'"
            by (rule Cons.IH[OF run Cons.prems(2) l5])
          then show ?thesis using take_put[OF Cons.prems(2), of ?h4] t4(1) by simp
        qed
      qed (use Cons.prems(1) \<open>read_series ?h1 (length h) = Some s\<close> ob t4 in \<open>auto simp: alloc_def Let_def\<close>)
    qed
  qed
qed

lemma top_words_st_frame:
  "take (length h) (snd (top_words_st argsort fmt components n h)) = h"
proof (cases "fetch h components")
  case None
  then show ?thesis by (simp add: top_words_st_def)
next
  case (Some ob)
  show ?thesis
  proof (cases ob)
    case (Frame df)
    let ?h1 = "h @ [Topics (Series (repeat [0..<snd (df_shape df)] n))]"
    obtain r h' where run:
      "top_words_loop_st argsort fmt components n [0..<snd (df_shape df)] (length h) ?h1 = (r, h')"
      by (cases "top_words_loop_st argsort fmt components n [0..<snd (df_shape df)] (length h) ?h1")
    have "take (length h) h' = take (length h) ?h1"
      using top_words_loop_st_frame[OF run, of "length h"] by simp
    then have "take (length h) h' = h" by simp
    moreover have "snd (top_words_st argsort fmt components n h) = h'"
      using Some Frame run by (cases r) (simp_all add: top_words_st_def alloc_def Let_def)
    ultimately show ?thesis by simp
  qed (use Some in \<open>simp_all add: top_words_st_def\<close>)
qed

lemma word_topic_st_frame:
  "take (length h) (snd (word_topic_st tfidf solution wordlist h)) = h"
  by (auto simp: word_topic_st_def alloc_def Let_def
      split: option.splits obj.splits sum.splits)


lemma fetch_less: "fetch h a = Some x \<Longrightarrow> a < length h"
  by (simp add: fetch_def split: if_splits)

lemma top_words_loop_st_value:
  assumes "fetch h components = Some (Frame df)" and "fetch h topwords = Some (Topics tw)"
  shows "case top_words_loop argsort fmt df n cols tw of
           Inl e \<Rightarrow> fst (top_words_loop_st argsort fmt components n cols topwords h) = Inl e
         | Inr tw' \<Rightarrow>
             fst (top_words_loop_st argsort fmt components n cols topwords h) = Inr () \<and>
             fetch (snd (top_words_loop_st argsort fmt components n cols topwords h)) topwords
               = Some (Topics tw')"
  using assms
proof (induction cols arbitrary: h tw)
  case Nil
  then show ?case by simp
next
  case (Cons col cols)
  have cl: "components < length h" and tl: "topwords < length h"
    using Cons.prems fetch_less by blast+
  have ne: "topwords \<noteq> components" using Cons.prems by auto
  let ?s = "iloc_column df col"
  let ?sw = "sort_values_desc argsort ?s"
  let ?cl = "chosen_list fmt (head n ?sw)"
  let ?h1 = "h @ [View components col]"
  let ?h4 = "h @ [View components col, Column ?sw, Column (head n ?sw), Words ?cl]"
  have rs: "read_series ?h1 (length h) = Some ?s"
    using Cons.prems(1) cl by (simp add: read_series_def fetch_def nth_append)
  have f4: "fetch ?h4 topwords = Some (Topics tw)" "fetch ?h4 components = Some (Frame df)"
    using Cons.prems cl tl by (simp_all add: fetch_append)
  have col_eq: "top_words_column argsort fmt df n col = ?cl"
    by (simp add: top_words_column_def Let_def)
  show ?case
  proof (cases "loc_set tw col ?cl")
    case (Inl e)
    then show ?thesis using rs f4 col_eq by (simp add: alloc_def Let_def)
  next
    case (Inr tw')
    let ?h5 = "put ?h4 topwords (Topics tw')"
    have f5: "fetch ?h5 components = Some (Frame df)" "fetch ?h5 topwords = Some (Topics tw')"
      using f4 ne tl by (simp_all add: fetch_put_other fetch_put_same)
    have step: "top_words_loop_st argsort fmt components n (col # cols) topwords h
                = top_words_loop_st argsort fmt components n cols topwords ?h5"
      using rs f4 Inr by (simp add: alloc_def Let_def)
    have pure: "top_words_loop argsort fmt df n (col # cols) tw
                = top_words_loop argsort fmt df n cols tw'"
      using Inr col_eq by simp
    show ?thesis unfolding step pure by (rule Cons.IH[OF f5])
  qed
qed

lemma top_words_st_value:
  assumes "fetch h components = Some (Frame df)"
  shows "case top_words argsort fmt df n of
           Inl e \<Rightarrow> fst (top_words_st argsort fmt components n h) = Inl e
         | Inr tw \<Rightarrow>
             fst (top_words_st argsort fmt components n h) = Inr (length h) \<and>
             fetch (snd (top_words_st argsort fmt components n h)) (length h)
               = Some (Topics tw)"
proof -
  let ?k = "snd (df_shape df)"
  let ?t0 = "Series (repeat [0..<?k] n)"
  let ?h1 = "h @ [Topics ?t0]"
  have cl: "components < length h" using assms fetch_less by blast
  have f1: "fetch ?h1 components = Some (Frame df)" "fetch ?h1 (length h) = Some (Topics ?t0)"
    using assms cl by (simp_all add: fetch_append fetch_new)
  note loop = top_words_loop_st_value[OF f1, of argsort fmt n "[0..<?k]"]
  obtain r h' where run:
    "top_words_loop_st argsort fmt components n [0..<?k] (length h) ?h1 = (r, h')"
    by (cases "top_words_loop_st argsort fmt components n [0..<?k] (length h) ?h1")
  have pure: "top_words argsort fmt df n = top_words_loop argsort fmt df n [0..<?k] ?t0"
    by (simp add: top_words_def Let_def)
  show ?thesis
  proof (cases "top_words_loop argsort fmt df n [0..<?k] ?t0")
    case (Inl e)
    then show ?thesis using loop run assms
      by (simp add: pure top_words_st_def alloc_def Let_def)
  next
    case (Inr tw)
    then show ?thesis using loop run assms
      by (simp add: pure top_words_st_def alloc_def Let_def)
  qed
qed

lemma word_topic_st_value:
  assumes "fetch h tfidf = Some (Matrix a)" and "fetch h solution = Some (Matrix b)"
    and "fetch h wordlist = Some (Words ws)"
  shows "case word_topic a b ws of
           Inl e \<Rightarrow> fst (word_topic_st tfidf solution wordlist h) = Inl e
         | Inr df \<Rightarrow>
             fst (word_topic_st tfidf solution wordlist h) = Inr (length h + 2) \<and>
             fetch (snd (word_topic_st tfidf solution wordlist h)) (length h + 2)
               = Some (Frame df)"
  using assms
  by (simp add: word_topic_st_def word_topic_def alloc_def Let_def fetch_def nth_append
      split: sum.splits)

lemma top_words_st_dangling:
  "fetch h components = None \<Longrightarrow> snd (top_words_st argsort fmt components n h) = h"
  by (simp add: top_words_st_def)

lemma word_topic_st_dangling:
  "fetch h tfidf = None \<or> fetch h solution = None \<or> fetch h wordlist = None \<Longrightarrow>
   snd (word_topic_st tfidf solution wordlist h) = h"
  by (auto simp: word_topic_st_def split: option.splits obj.splits)

lemma fetch_take:
  assumes "take (length h) h' = h"
  shows "fetch h a \<noteq> None \<Longrightarrow> fetch h' a = fetch h a"
proof -
  assume "fetch h a \<noteq> None"
  then have a: "a < length h" by (simp add: fetch_def split: if_splits)
  have l: "length h \<le> length h'"
    using assms by (metis length_take min.cobounded1)
  have "h' ! a = take (length h) h' ! a" using a by simp
  then show ?thesis using a l assms by (simp add: fetch_def)
qed

lemma fetch_after:
  assumes "take (length h) h' = h" and "fetch h a = None \<Longrightarrow> h' = h"
  shows "fetch h' a = fetch h a"
  using assms fetch_take[OF assms(1), of a] by (cases "fetch h a") auto

text \<open>
  Claim C10: \<open>top_words\<close> leaves \<open>components\<close> unchanged, and \<open>word_topic\<close> leaves \<open>tfidf\<close>,
  \<open>solution\<close> and \<open>wordlist\<close> unchanged: after the call every object that was in the store
  before it is as it was (the store has only grown), so reading any of the arguments
  gives the same value as before.
\<close>

theorem helpers_leave_arguments:
  "take (length h) (snd (top_words_st argsort round2_str components n h)) = h \<and>
   fetch (snd (top_words_st argsort round2_str components n h)) components
     = fetch h components \<and>
   take (length h) (snd (word_topic_st tfidf solution wordlist h)) = h \<and>
   fetch (snd (word_topic_st tfidf solution wordlist h)) tfidf = fetch h tfidf \<and>
   fetch (snd (word_topic_st tfidf solution wordlist h)) solution = fetch h solution \<and>
   fetch (snd (word_topic_st tfidf solution wordlist h)) wordlist = fetch h wordlist"
proof -
  let ?t = "snd (top_words_st argsort round2_str components n h)"
  let ?w = "snd (word_topic_st tfidf solution wordlist h)"
  have t: "take (length h) ?t = h" by (rule top_words_st_frame)
  have w: "take (length h) ?w = h" by (rule word_topic_st_frame)
  have "fetch ?t components = fetch h components"
    using t top_words_st_dangling by (rule fetch_after)
  moreover have "fetch ?w tfidf = fetch h tfidf"
    using w word_topic_st_dangling[of h tfidf solution wordlist] by (intro fetch_after) auto
  moreover have "fetch ?w solution = fetch h solution"
    using w word_topic_st_dangling[of h tfidf solution wordlist] by (intro fetch_after) auto
  moreover have "fetch ?w wordlist = fetch h wordlist"
    using w word_topic_st_dangling[of h tfidf solution wordlist] by (intro fetch_after) auto
  ultimately show ?thesis using t w by simp
qed

theorem helpers_leave_arguments_witness:
  "fst (top_words_st insertion_argsort digit_str 3 2 example_store) = Inr 4 \<and>
   fetch (snd (top_words_st insertion_argsort digit_str 3 2 example_store)) 3
     = Some (Frame example_frame) \<and>
   fst (word_topic_st 0 1 2 example_store) = Inr 6 \<and>
   fetch (snd (word_topic_st 0 1 2 example_store)) 0 = Some (Matrix example_tfidf) \<and>
   fetch (snd (word_topic_st 0 1 2 example_store)) 1 = Some (Matrix example_solution) \<and>
   fetch (snd (word_topic_st 0 1 2 example_store)) 2
     = Some (Words [str ''car'', str ''god'', str ''gun''])"
proof -
  have r1: "fst (top_words_st insertion_argsort digit_str 3 2 example_store) = Inr 4"
    by code_simp
  have r2: "fst (word_topic_st 0 1 2 example_store) = Inr 6"
    by code_simp
  have f: "fetch example_store 3 = Some (Frame example_frame)"
    "fetch example_store 0 = Some (Matrix example_tfidf)"
    "fetch example_store 1 = Some (Matrix example_solution)"
    "fetch example_store 2 = Some (Words [str ''car'', str ''god'', str ''gun''])"
    by (simp_all add: fetch_def example_store_def)
  show ?thesis
    using helpers_leave_arguments[of example_store insertion_argsort digit_str 3 2 0 1 2]
      r1 r2 f
    by simp
qed

section \<open>Properties of the notebook cells\<close>

lemma insertion_argsort_ok: "argsort_ok insertion_argsort xs"
proof -
  have "sort (sort_key (\<lambda>i. xs ! i) [0..<length xs]) = [0..<length xs]"
    by (rule sorted_distinct_set_unique) simp_all
  then show ?thesis by (simp add: argsort_ok_def insertion_argsort_def)
qed

lemma length_cells_at: "length (cells_at s c) = length (positions (ts_index s) c)"
  by (simp add: cells_at_def)

lemma loadings_result:
  fixes ses :: "'v::{linorder,semiring_0} session"
  assumes tf: "length (vocabulary ses) = snd (shape (news_train_tfidf ses))"
    and sol: "wf_matrix solution" "shape solution = (fst (shape (news_train_tfidf ses)), 8)"
    and voc: "10 \<le> length (vocabulary ses)"
    and ok: "\<forall>xs. argsort_ok argsort xs"
  shows "\<exists>s. loadings argsort round2_str ses solution = Inr s \<and>
           ts_index s = repeat [0..<8] 10 \<and> length (ts_values s) = 80"
proof -
  have d: "fst (shape (news_train_tfidf ses)) = fst (shape solution)" using sol(2) by simp
  from word_topic_frame[OF d tf]
  obtain components where c:
    "word_topic (news_train_tfidf ses) solution (vocabulary ses) = Inr components"
    "df_shape components = (snd (shape (news_train_tfidf ses)), snd (shape solution))"
    "wf_dataframe components"
    by blast
  have k: "snd (df_shape components) = 8" using c(2) sol(2) by simp
  have r: "10 \<le> fst (df_shape components)" using c(2) voc tf by simp
  have one: "(1::nat) \<le> 10" by simp
  have oks: "\<forall>j<snd (df_shape components). argsort_ok argsort (column (df_values components) j)"
    using ok by simp
  from top_words_cells[OF c(3) one r oks, of round2_str]
  obtain tw where tw: "top_words argsort round2_str components 10 = Inr tw"
    "ts_index tw = repeat [0..<snd (df_shape components)] 10"
    "length (ts_values tw) = snd (df_shape components) * 10"
    by blast
  show ?thesis using c(1) tw k by (simp add: loadings_def)
qed

lemma cell_loadings:
  "lsa_cell argsort round2_str ses =
     (case loadings argsort round2_str ses (news_train_lsa ses) of
        Inl e \<Rightarrow> Inl e | Inr s \<Rightarrow> set_column empty_frame ''LSA'' s)"
  "lda_cell argsort round2_str ses topwords =
     (case loadings argsort round2_str ses (news_train_lda ses) of
        Inl e \<Rightarrow> Inl e | Inr s \<Rightarrow> set_column topwords ''LDA'' s)"
  "nmf_cell argsort round2_str ses topwords =
     (case loadings argsort round2_str ses (news_train_nmf ses) of
        Inl e \<Rightarrow> Inl e | Inr s \<Rightarrow> set_column topwords ''NNMF'' s)"
  by (simp_all add: lsa_cell_def lda_cell_def nmf_cell_def loadings_def n_top_words_def
      split: sum.splits)

lemma repeat_8_10_nonempty: "repeat [0..<8] 10 \<noteq> ([]::nat list)"
proof
  assume "repeat [0..<8] 10 = ([]::nat list)"
  then have "length (repeat [0..<8] 10) = 0" by simp
  then show False by (simp add: length_repeat)
qed

lemma example_session_ok: "session_ok example_session"
  by (simp add: session_ok_def example_session_def wf_matrix_def ntopics_def)

lemma example_vocabulary: "10 \<le> length (vocabulary example_session)"
  by (simp add: example_session_def)

text \<open>
  Claim C4: each of the three models is treated the same way. Its column of the frame
  of top words is \<open>top_words\<close>, with \<open>n_top_words = 10\<close>, of \<open>word_topic\<close> of the same tf-idf
  matrix, the document-topic matrix its \<open>fit_transform\<close> returned, and the vocabulary;
  with \<open>ntopics = 8\<close> that gives ten cells for each of eight topics, and these are what
  is printed for a topic.
\<close>

theorem topic_cells_same_way:
  fixes ses :: "'v::{linorder,semiring_0} session"
  assumes "session_ok ses" and "10 \<le> length (vocabulary ses)"
    and "\<forall>xs. argsort_ok argsort xs"
  shows "n_top_words = 10 \<and> ntopics = 8 \<and>
         (\<exists>lsa lda nmf.
            loadings argsort round2_str ses (news_train_lsa ses) = Inr lsa \<and>
            loadings argsort round2_str ses (news_train_lda ses) = Inr lda \<and>
            loadings argsort round2_str ses (news_train_nmf ses) = Inr nmf \<and>
            topic_cells argsort round2_str ses =
              Inr \<lparr>tf_index = repeat [0..<8] 10,
                   tf_columns = [(''LSA'', ts_values lsa), (''LDA'', ts_values lda),
                                 (''NNMF'', ts_values nmf)]\<rparr> \<and>
            list_all (\<lambda>s. ts_index s = repeat [0..<8] 10 \<and> length (ts_values s) = 80)
              [lsa, lda, nmf] \<and>
            (\<forall>topic<8. \<forall>topwords. topic_cells argsort round2_str ses = Inr topwords \<longrightarrow>
               shown topwords topic =
                 [(''LSA'', cells_at lsa topic), (''LDA'', cells_at lda topic),
                  (''NNMF'', cells_at nmf topic)] \<and>
               list_all (\<lambda>s. length (cells_at s topic) = 10) [lsa, lda, nmf]))"
proof -
  have tf: "length (vocabulary ses) = snd (shape (news_train_tfidf ses))"
    and s1: "wf_matrix (news_train_lsa ses)"
            "shape (news_train_lsa ses) = (fst (shape (news_train_tfidf ses)), 8)"
    and s2: "wf_matrix (news_train_lda ses)"
            "shape (news_train_lda ses) = (fst (shape (news_train_tfidf ses)), 8)"
    and s3: "wf_matrix (news_train_nmf ses)"
            "shape (news_train_nmf ses) = (fst (shape (news_train_tfidf ses)), 8)"
    using assms(1) by (simp_all add: session_ok_def ntopics_def)
  from loadings_result[OF tf s1 assms(2,3), of round2_str]
  obtain lsa where lsa: "loadings argsort round2_str ses (news_train_lsa ses) = Inr lsa"
    "ts_index lsa = repeat [0..<8] 10" "length (ts_values lsa) = 80" by blast
  from loadings_result[OF tf s2 assms(2,3), of round2_str]
  obtain lda where lda: "loadings argsort round2_str ses (news_train_lda ses) = Inr lda"
    "ts_index lda = repeat [0..<8] 10" "length (ts_values lda) = 80" by blast
  from loadings_result[OF tf s3 assms(2,3), of round2_str]
  obtain nmf where nmf: "loadings argsort round2_str ses (news_train_nmf ses) = Inr nmf"
    "ts_index nmf = repeat [0..<8] 10" "length (ts_values nmf) = 80" by blast
  let ?fr = "\<lparr>tf_index = repeat [0..<8] 10,
               tf_columns = [(''LSA'', ts_values lsa), (''LDA'', ts_values lda),
                             (''NNMF'', ts_values nmf)]\<rparr>"
  have c1: "lsa_cell argsort round2_str ses =
              Inr \<lparr>tf_index = repeat [0..<8] 10, tf_columns = [(''LSA'', ts_values lsa)]\<rparr>"
    by (simp add: cell_loadings lsa set_column_def empty_frame_def)
  have c2: "lda_cell argsort round2_str ses
              \<lparr>tf_index = repeat [0..<8] 10, tf_columns = [(''LSA'', ts_values lsa)]\<rparr> =
              Inr \<lparr>tf_index = repeat [0..<8] 10,
                   tf_columns = [(''LSA'', ts_values lsa), (''LDA'', ts_values lda)]\<rparr>"
    by (simp add: cell_loadings lda set_column_def repeat_8_10_nonempty)
  have c3: "nmf_cell argsort round2_str ses
              \<lparr>tf_index = repeat [0..<8] 10,
               tf_columns = [(''LSA'', ts_values lsa), (''LDA'', ts_values lda)]\<rparr> = Inr ?fr"
    by (simp add: cell_loadings nmf set_column_def repeat_8_10_nonempty)
  have run: "topic_cells argsort round2_str ses = Inr ?fr"
    by (simp add: topic_cells_def c1 c2 c3)
  have sh: "shown ?fr topic = [(''LSA'', cells_at lsa topic), (''LDA'', cells_at lda topic),
                  (''NNMF'', cells_at nmf topic)]" for topic
    by (simp add: shown_def cells_at_def lsa(2) lda(2) nmf(2))
  have ten: "length (cells_at s topic) = 10"
    if "ts_index s = repeat [0..<8] 10" "topic < 8" for s topic
    using that by (simp add: length_cells_at length_positions_repeat)
  show ?thesis
    using lsa lda nmf run sh ten by (simp add: n_top_words_def ntopics_def)
qed

theorem topic_cells_same_way_witness:
  "session_ok example_session \<and> 10 \<le> length (vocabulary example_session) \<and>
   (\<forall>xs. argsort_ok insertion_argsort xs) \<and>
   n_top_words = 10 \<and> ntopics = 8 \<and>
   (\<exists>lsa lda nmf.
      loadings insertion_argsort digit_str example_session (news_train_lsa example_session)
        = Inr lsa \<and>
      loadings insertion_argsort digit_str example_session (news_train_lda example_session)
        = Inr lda \<and>
      loadings insertion_argsort digit_str example_session (news_train_nmf example_session)
        = Inr nmf \<and>
      topic_cells insertion_argsort digit_str example_session =
        Inr \<lparr>tf_index = repeat [0..<8] 10,
             tf_columns = [(''LSA'', ts_values lsa), (''LDA'', ts_values lda),
                           (''NNMF'', ts_values nmf)]\<rparr> \<and>
      list_all (\<lambda>s. ts_index s = repeat [0..<8] 10 \<and> length (ts_values s) = 80)
        [lsa, lda, nmf] \<and>
      (\<forall>topic<8. \<forall>topwords.
         topic_cells insertion_argsort digit_str example_session = Inr topwords \<longrightarrow>
         shown topwords topic =
           [(''LSA'', cells_at lsa topic), (''LDA'', cells_at lda topic),
            (''NNMF'', cells_at nmf topic)] \<and>
         list_all (\<lambda>s. length (cells_at s topic) = 10) [lsa, lda, nmf]))"
proof -
  have ok: "\<forall>xs. argsort_ok insertion_argsort xs" using insertion_argsort_ok by blast
  note inst = topic_cells_same_way[OF example_session_ok example_vocabulary ok, of digit_str]
  show ?thesis using inst example_session_ok example_vocabulary ok by blast
qed

end
